theory Spec2Isabelle
  imports Complex_Main "HOL-Library.Word"
begin

section \<open>Audio window assembly (proc_serv_in, vap_bc_main.py lines 350-401)\<close>

text \<open>The three frame constants of \<^verbatim>\<open>proc_serv_in\<close>.\<close>

definition FRAME_SIZE_INPUT :: nat where
  "FRAME_SIZE_INPUT = 160"

definition FRAME_SIZE_VAP :: nat where
  "FRAME_SIZE_VAP = 1600"

definition FRAME_SAVE_LAST :: nat where
  "FRAME_SAVE_LAST = 320"

text \<open>Python's \<^verbatim>\<open>xs[-n:]\<close> for \<open>n > 0\<close>: the last \<open>n\<close> elements, or all of
  \<open>xs\<close> when it is shorter.\<close>

definition py_last_n :: "nat \<Rightarrow> 'a list \<Rightarrow> 'a list" where
  "py_last_n n xs = drop (length xs - n) xs"

text \<open>Python's \<^verbatim>\<open>xs[n:]\<close>.\<close>

definition py_from :: "nat \<Rightarrow> 'a list \<Rightarrow> 'a list" where
  "py_from n xs = drop n xs"

type_synonym sample = real

type_synonym buffers = "sample list \<times> sample list"

text \<open>Lines 364-365: \<^verbatim>\<open>current_x1 = np.zeros(FRAME_SAVE_LAST)\<close> and the same for
  channel 2.\<close>

definition init_buffers :: buffers where
  "init_buffers = (replicate FRAME_SAVE_LAST 0, replicate FRAME_SAVE_LAST 0)"

text \<open>Lines 389-390: the chunk is appended to both buffers.\<close>

definition append_chunk :: "buffers \<Rightarrow> buffers \<Rightarrow> buffers" where
  "append_chunk cur x = (fst cur @ fst x, snd cur @ snd x)"

text \<open>Line 394: the readiness test looks at channel 1 only.\<close>

definition not_ready :: "buffers \<Rightarrow> bool" where
  "not_ready cur \<longleftrightarrow> length (fst cur) < FRAME_SIZE_VAP + FRAME_SAVE_LAST"

text \<open>Lines 400-401: both buffers keep their last 320 samples.\<close>

definition save_last :: "buffers \<Rightarrow> buffers" where
  "save_last cur = (py_last_n FRAME_SAVE_LAST (fst cur), py_last_n FRAME_SAVE_LAST (snd cur))"

text \<open>One pass of the loop body from line 389 to line 401, without the call of the
  model: the window handed to \<^verbatim>\<open>process_vap\<close> (\<open>None\<close> is the \<^verbatim>\<open>continue\<close> of
  line 395) and the buffers afterwards.\<close>

definition ingest :: "buffers \<Rightarrow> buffers \<Rightarrow> buffers option \<times> buffers" where
  "ingest cur x =
     (let cur' = append_chunk cur x
      in if not_ready cur' then (None, cur') else (Some cur', save_last cur'))"

text \<open>The loop over a sequence of chunks: the windows emitted, in the order of emission,
  and the buffers at the end.\<close>

fun ingest_all :: "buffers \<Rightarrow> buffers list \<Rightarrow> buffers list \<times> buffers" where
  "ingest_all cur [] = ([], cur)"
| "ingest_all cur (x # xs) =
     (case ingest cur x of
        (None, cur') \<Rightarrow> ingest_all cur' xs
      | (Some w, cur') \<Rightarrow> (let (ws, fin) = ingest_all cur' xs in (w # ws, fin)))"

text \<open>A chunk as the producer sends it: 160 samples on each channel.\<close>

definition fixed_chunk :: "buffers \<Rightarrow> bool" where
  "fixed_chunk x \<longleftrightarrow> length (fst x) = FRAME_SIZE_INPUT \<and> length (snd x) = FRAME_SIZE_INPUT"

text \<open>All samples of one channel in arrival order, after the 320 zeros of pre-roll.\<close>

definition stream1 :: "buffers list \<Rightarrow> sample list" where
  "stream1 xs = fst init_buffers @ concat (map fst xs)"

definition stream2 :: "buffers list \<Rightarrow> sample list" where
  "stream2 xs = snd init_buffers @ concat (map snd xs)"

text \<open>The \<open>k\<close>-th span of 1920 samples, spans starting every 1600 samples.\<close>

definition span :: "nat \<Rightarrow> 'a list \<Rightarrow> 'a list" where
  "span k s = take (FRAME_SIZE_VAP + FRAME_SAVE_LAST) (drop (FRAME_SIZE_VAP * k) s)"

text \<open>The buffers carried after the chunks \<open>pre\<close>: what is left of the stream of each
  channel once the windows completed so far have each consumed 1600 samples.\<close>

definition carried :: "buffers list \<Rightarrow> buffers" where
  "carried pre = (drop (FRAME_SIZE_VAP * (length pre div 10)) (stream1 pre),
                  drop (FRAME_SIZE_VAP * (length pre div 10)) (stream2 pre))"

text \<open>The \<open>k\<close>-th window of both channels.\<close>

definition window_at :: "nat \<Rightarrow> buffers list \<Rightarrow> buffers" where
  "window_at k xs = (span k (stream1 xs), span k (stream2 xs))"

section \<open>The inference context (class VAPRealTime, vap_bc_main.py lines 178-324)\<close>

text \<open>Class constant of line 183 and the two limits set by the constructor
  (lines 211 and 216).\<close>

definition CALC_PROCESS_TIME_INTERVAL :: nat where
  "CALC_PROCESS_TIME_INTERVAL = 100"

definition AUDIO_CONTEXT_LIM :: nat where
  "AUDIO_CONTEXT_LIM = 50"

definition frame_contxt_padding :: nat where
  "frame_contxt_padding = 320"

text \<open>The fields of the object that \<^verbatim>\<open>process_vap\<close> and the distributor use. The
  last field is not a field of the class: it is the trace of the averages printed by
  line 321, oldest first.\<close>

record 'e VAPRealTime =
  current_x1_audio :: "sample list"
  current_x2_audio :: "sample list"
  result_p_bc_react :: real
  result_p_bc_emo :: real
  result_last_time :: real
  process_time_abs :: real
  e1_context :: "'e list"
  e2_context :: "'e list"
  list_process_time_context :: "real list"
  printed_ave :: "real list"

text \<open>Lines 224-236 of the constructor.\<close>

definition init_vap :: "'e VAPRealTime" where
  "init_vap = \<lparr> current_x1_audio = [], current_x2_audio = [],
       result_p_bc_react = 0, result_p_bc_emo = 0, result_last_time = - 1,
       process_time_abs = - 1, e1_context = [], e2_context = [],
       list_process_time_context = [], printed_ave = [] \<rparr>"

text \<open>The neural model is outside the repository's transport layer. It enters as two
  functions: the audio encoders of line 256, and everything from the concatenation of
  the contexts (line 266) to the two probabilities of lines 310-311. \<open>None\<close> is an
  exception raised by the model.\<close>

record 'e vap_model =
  encode_audio :: "sample list \<Rightarrow> sample list \<Rightarrow> ('e \<times> 'e) option"
  bc_heads :: "'e list \<Rightarrow> 'e list \<Rightarrow> (real \<times> real) option"

text \<open>The exceptions of the model: of the neural model, of \<^verbatim>\<open>recv\<close>, of the decoder of
  the input payload, of the read of a local variable not yet bound, of
  \<^verbatim>\<open>getpeername\<close>, and of \<^verbatim>\<open>to_bytes\<close>.\<close>

datatype exn = InferenceFault | RecvFault | DecodeFault | UnboundLocal | PeerNameFault | OverflowFault

text \<open>The four readings of \<^verbatim>\<open>time.time()\<close> in one call of \<^verbatim>\<open>process_vap\<close>:
  lines 245, 312, 314 and 324.\<close>

record clock_reads =
  t_start :: real
  t_result :: real
  t_process :: real
  t_abs :: real

text \<open>Lines 248-249.\<close>

definition save_current_audio :: "sample list \<Rightarrow> sample list \<Rightarrow> 'e VAPRealTime \<Rightarrow> 'e VAPRealTime" where
  "save_current_audio x1 x2 s =
     s\<lparr> current_x1_audio := py_from frame_contxt_padding x1,
        current_x2_audio := py_from frame_contxt_padding x2 \<rparr>"

text \<open>Lines 261-264: a context longer than the limit keeps its last 50 entries.\<close>

definition limit_context :: "'e list \<Rightarrow> 'e list" where
  "limit_context ctx =
     (if length ctx > AUDIO_CONTEXT_LIM then py_last_n AUDIO_CONTEXT_LIM ctx else ctx)"

text \<open>Lines 258-264.\<close>

definition append_context :: "'e \<Rightarrow> 'e \<Rightarrow> 'e VAPRealTime \<Rightarrow> 'e VAPRealTime" where
  "append_context e1 e2 s =
     s\<lparr> e1_context := limit_context (e1_context s @ [e1]),
        e2_context := limit_context (e2_context s @ [e2]) \<rparr>"

text \<open>Lines 310-311.\<close>

definition store_result :: "real \<Rightarrow> real \<Rightarrow> 'e VAPRealTime \<Rightarrow> 'e VAPRealTime" where
  "store_result p_react p_emo s = s\<lparr> result_p_bc_react := p_react, result_p_bc_emo := p_emo \<rparr>"

text \<open>Line 312.\<close>

definition stamp_result :: "real \<Rightarrow> 'e VAPRealTime \<Rightarrow> 'e VAPRealTime" where
  "stamp_result t s = s\<lparr> result_last_time := t \<rparr>"

text \<open>\<^verbatim>\<open>np.average\<close> of a list of numbers, over the reals.\<close>

definition average :: "real list \<Rightarrow> real" where
  "average xs = sum_list xs / real (length xs)"

text \<open>Lines 317-322: the latency is appended; a list of more than 100 entries is
  averaged, the average printed, and the list cleared.\<close>

definition record_time :: "real \<Rightarrow> 'e VAPRealTime \<Rightarrow> 'e VAPRealTime" where
  "record_time time_process s =
     (let lst = list_process_time_context s @ [time_process]
      in if length lst > CALC_PROCESS_TIME_INTERVAL
         then s\<lparr> list_process_time_context := [], printed_ave := printed_ave s @ [average lst] \<rparr>
         else s\<lparr> list_process_time_context := lst \<rparr>)"

text \<open>Line 324.\<close>

definition stamp_abs :: "real \<Rightarrow> 'e VAPRealTime \<Rightarrow> 'e VAPRealTime" where
  "stamp_abs t s = s\<lparr> process_time_abs := t \<rparr>"

text \<open>\<^verbatim>\<open>process_vap\<close>, lines 238-324. An exception of the model leaves the object as
  the statements before it have made it.\<close>

definition process_vap ::
  "'e vap_model \<Rightarrow> sample list \<Rightarrow> sample list \<Rightarrow> clock_reads \<Rightarrow> 'e VAPRealTime
     \<Rightarrow> exn option \<times> 'e VAPRealTime" where
  "process_vap m x1 x2 clk s =
     (let s1 = save_current_audio x1 x2 s
      in case encode_audio m x1 x2 of
           None \<Rightarrow> (Some InferenceFault, s1)
         | Some (e1, e2) \<Rightarrow>
             (let s2 = append_context e1 e2 s1
              in case bc_heads m (e1_context s2) (e2_context s2) of
                   None \<Rightarrow> (Some InferenceFault, s2)
                 | Some (p_react, p_emo) \<Rightarrow>
                     (None,
                      stamp_abs (t_abs clk)
                        (record_time (t_process clk - t_start clk)
                          (stamp_result (t_result clk)
                            (store_result p_react p_emo s2))))))"

text \<open>One call of \<^verbatim>\<open>process_vap\<close>: the window of each channel and the clock readings.\<close>

record vap_call =
  call_x1 :: "sample list"
  call_x2 :: "sample list"
  call_clk :: clock_reads

text \<open>Successive calls on the same object. A call that raises ends the producer's
  session, not the object: the next session calls it again.\<close>

fun process_all :: "'e vap_model \<Rightarrow> vap_call list \<Rightarrow> 'e VAPRealTime \<Rightarrow> 'e VAPRealTime" where
  "process_all m [] s = s"
| "process_all m (c # cs) s =
     process_all m cs (snd (process_vap m (call_x1 c) (call_x2 c) (call_clk c) s))"

text \<open>The embeddings that the calls insert into the context of channel 1 and of
  channel 2, in the order of insertion: line 258 and 259 are reached when the encoders
  of line 256 return.\<close>

definition inserted1 :: "'e vap_model \<Rightarrow> vap_call list \<Rightarrow> 'e list" where
  "inserted1 m cs =
     concat (map (\<lambda>c. case encode_audio m (call_x1 c) (call_x2 c) of
                         None \<Rightarrow> [] | Some (e1, e2) \<Rightarrow> [e1]) cs)"

definition inserted2 :: "'e vap_model \<Rightarrow> vap_call list \<Rightarrow> 'e list" where
  "inserted2 m cs =
     concat (map (\<lambda>c. case encode_audio m (call_x1 c) (call_x2 c) of
                         None \<Rightarrow> [] | Some (e1, e2) \<Rightarrow> [e2]) cs)"

text \<open>A model that never raises, for concrete runs.\<close>

definition const_model :: "nat vap_model" where
  "const_model = \<lparr> encode_audio = (\<lambda>x1 x2. Some (length x1, length x2)),
                    bc_heads = (\<lambda>c1 c2. Some (1 / 2, 1 / 4)) \<rparr>"

text \<open>A call whose step takes one second on the clock.\<close>

definition call_at :: "real \<Rightarrow> vap_call" where
  "call_at t = \<lparr> call_x1 = [], call_x2 = [],
      call_clk = \<lparr> t_start = t, t_result = t + 1, t_process = t + 1, t_abs = t + 1 \<rparr> \<rparr>"

section \<open>Sockets and the two wire shapes\<close>

type_synonym byte = "8 word"

text \<open>A connected TCP socket, seen from the reader. \<open>pending\<close> holds the bytes that
  the peer sends before it closes, in order. Each call of \<^verbatim>\<open>recv\<close> takes the next event:
  \<open>Avail k\<close> means that \<open>k + 1\<close> bytes are ready in the kernel at that call (a blocking
  \<^verbatim>\<open>recv\<close> returns at least one byte while the stream lasts), \<open>Fault\<close> that the
  call raises. With no event left everything requested is ready. A call on an exhausted
  stream returns the empty byte string: the peer has closed.\<close>

datatype recv_event = Avail nat | Fault

record sock =
  pending :: "byte list"
  events :: "recv_event list"

definition recv :: "nat \<Rightarrow> sock \<Rightarrow> (exn + byte list) \<times> sock" where
  "recv n sk =
     (case events sk of
        [] \<Rightarrow> (Inr (take n (pending sk)), sk\<lparr> pending := drop n (pending sk) \<rparr>)
      | Fault # es \<Rightarrow> (Inl RecvFault, sk\<lparr> events := es \<rparr>)
      | Avail k # es \<Rightarrow>
          (Inr (take (min n (Suc k)) (pending sk)),
           sk\<lparr> pending := drop (min n (Suc k)) (pending sk), events := es \<rparr>))"

text \<open>Line 370: \<^verbatim>\<open>size_recv = 8 * 2 * FRAME_SIZE_INPUT\<close>.\<close>

definition size_recv :: nat where
  "size_recv = 8 * 2 * FRAME_SIZE_INPUT"

text \<open>Lines 376-382: the loop that tops up a short first read. Every pass asks for
  \<^verbatim>\<open>size_recv\<close> bytes again, and leaves only on an empty read or when the length is
  exactly \<^verbatim>\<open>size_recv\<close>.\<close>

function recv_more :: "byte list \<Rightarrow> sock \<Rightarrow> (exn + byte list) \<times> sock" where
  "recv_more data sk =
     (case recv size_recv sk of
        (Inl e, sk') \<Rightarrow> (Inl e, sk')
      | (Inr data', sk') \<Rightarrow>
          if length data' = 0 then (Inr data, sk')
          else if length (data @ data') = size_recv then (Inr (data @ data'), sk')
          else recv_more (data @ data') sk')"
  by pat_completeness auto
termination
  apply (relation "measure (\<lambda>(data, sk). length (pending sk))")
   apply simp
  apply (auto simp: recv_def split: list.splits recv_event.splits)
  done

declare recv_more.simps [simp del]

text \<open>Lines 370-382: what the input server reads as one frame.\<close>

definition recv_frame_in :: "sock \<Rightarrow> (exn + byte list) \<times> sock" where
  "recv_frame_in sk =
     (case recv size_recv sk of
        (Inl e, sk') \<Rightarrow> (Inl e, sk')
      | (Inr data, sk') \<Rightarrow>
          if length data < size_recv then recv_more data sk' else (Inr data, sk'))"


text \<open>\<^verbatim>\<open>int.from_bytes(bs, 'little')\<close>, for a byte string of any length.\<close>

fun from_bytes_little :: "byte list \<Rightarrow> nat" where
  "from_bytes_little [] = 0"
| "from_bytes_little (b # bs) = unat b + 256 * from_bytes_little bs"

text \<open>The dictionary built by lines 420-430 of the distributor.\<close>

record vap_result =
  res_t :: real
  res_x1 :: "sample list"
  res_x2 :: "sample list"
  res_p_bc_react :: real
  res_p_bc_emo :: real


text \<open>Lines 24-26 of console.py: the loop that reads the payload. It has no test for an
  empty read, so it is a partial function: \<open>None\<close> is a loop that never returns.\<close>

partial_function (option) recv_payload ::
    "nat \<Rightarrow> byte list \<Rightarrow> sock \<Rightarrow> ((exn + byte list) \<times> sock) option" where
  "recv_payload sz data sk =
     (if length data < sz
      then (case recv (sz - length data) sk of
              (Inl e, sk') \<Rightarrow> Some (Inl e, sk')
            | (Inr data', sk') \<Rightarrow> recv_payload sz (data @ data') sk')
      else Some (Inr data, sk))"

text \<open>Lines 21-26 of console.py: what the consumer reads as one frame's payload.\<close>

definition recv_frame_out :: "sock \<Rightarrow> ((exn + byte list) \<times> sock) option" where
  "recv_frame_out sk =
     (case recv 4 sk of
        (Inl e, sk') \<Rightarrow> Some (Inl e, sk')
      | (Inr data_size, sk') \<Rightarrow>
          (let sz = from_bytes_little data_size
           in case recv sz sk' of
                (Inl e, sk'') \<Rightarrow> Some (Inl e, sk'')
              | (Inr data, sk'') \<Rightarrow> recv_payload sz data sk''))"


text \<open>A stream whose bytes are all ready when asked for; on the empty byte string, a
  peer that has closed.\<close>

definition stream_of :: "byte list \<Rightarrow> sock" where
  "stream_of bs = \<lparr> pending = bs, events = [] \<rparr>"



section \<open>The broadcast of the distributor (proc_serv_out_dist, lines 436-443)\<close>

text \<open>An output connection during one broadcast: the socket object (its identity), what
  \<^verbatim>\<open>fileno()\<close> returns, what \<^verbatim>\<open>sendall\<close> does, and whether \<^verbatim>\<open>getpeername()\<close>
  returns or raises. The sockets are non-blocking (lines 337-338), so a \<^verbatim>\<open>sendall\<close>
  that raises may already have written the first bytes of the frame:
  \<open>sendall_raises = Some k\<close> is a call that raises after \<open>k\<close> bytes went out,
  \<open>None\<close> a call that returns, the whole frame sent.\<close>

record conn =
  conn_id :: nat
  fileno :: int
  sendall_raises :: "nat option"
  getpeername_ok :: bool

text \<open>What a consumer got of the frame.\<close>

datatype delivery = Whole | Part nat

text \<open>Line 438 guards the send; a send is attempted on a valid descriptor only.\<close>

definition send_fails :: "conn \<Rightarrow> bool" where
  "send_fails c \<longleftrightarrow> fileno c \<noteq> - 1 \<and> sendall_raises c \<noteq> None"

definition send_succeeds :: "conn \<Rightarrow> bool" where
  "send_succeeds c \<longleftrightarrow> fileno c \<noteq> - 1 \<and> sendall_raises c = None"

text \<open>Lines 436-443. Python's \<^verbatim>\<open>for conn in list_socket_out\<close> walks the list by an
  index that it advances after each element, and reads the list anew at every step;
  \<^verbatim>\<open>list_socket_out.remove(conn)\<close> deletes the first element equal to \<open>conn\<close>.
  The result is an exception that ends the loop, and with it the distributor's thread
  (only \<^verbatim>\<open>getpeername\<close>, called in the handler, can raise one), the registry, and what
  was sent to which connection, in order.\<close>

function dist_loop ::
  "nat \<Rightarrow> conn list \<Rightarrow> (conn \<times> delivery) list
     \<Rightarrow> exn option \<times> conn list \<times> (conn \<times> delivery) list" where
  "dist_loop i reg sent =
     (if i < length reg
      then (let c = reg ! i
            in if fileno c \<noteq> - 1
               then (case sendall_raises c of
                       None \<Rightarrow> dist_loop (Suc i) reg (sent @ [(c, Whole)])
                     | Some k \<Rightarrow>
                         if getpeername_ok c
                         then dist_loop (Suc i) (remove1 c reg) (sent @ [(c, Part k)])
                         else (Some PeerNameFault, reg, sent @ [(c, Part k)]))
               else dist_loop (Suc i) reg sent)
      else (None, reg, sent))"
  by pat_completeness auto
termination
  apply (relation "measure (\<lambda>(i, reg, sent). length reg - i)")
     apply simp
    apply simp
   apply (simp add: length_remove1)
  apply simp
  done

declare dist_loop.simps [simp del]

definition broadcast :: "conn list \<Rightarrow> exn option \<times> conn list \<times> (conn \<times> delivery) list" where
  "broadcast reg = dist_loop 0 reg []"

text \<open>Consumers for concrete runs. A live one has descriptor 5 and takes the whole
  frame. One whose peer has closed its socket has a valid descriptor still (nothing in
  the server closes it), its \<^verbatim>\<open>sendall\<close> raises with nothing sent, and
  \<^verbatim>\<open>getpeername\<close> works or raises as the second argument says.\<close>

definition live_consumer :: "nat \<Rightarrow> conn" where
  "live_consumer n = \<lparr> conn_id = n, fileno = 5, sendall_raises = None, getpeername_ok = True \<rparr>"

definition gone_consumer :: "nat \<Rightarrow> bool \<Rightarrow> conn" where
  "gone_consumer n peer =
     \<lparr> conn_id = n, fileno = 5, sendall_raises = Some 0, getpeername_ok = peer \<rparr>"

section \<open>The input server (proc_serv_in, lines 343-406)\<close>

text \<open>Every byte that \<^verbatim>\<open>recv\<close> returns leaves the stream.\<close>

lemma recv_consumes:
  "recv n sk = (Inr data, sk') \<Longrightarrow> length data + length (pending sk') = length (pending sk)"
  by (auto simp: recv_def split: list.splits recv_event.splits)

lemma recv_more_consumes:
  "recv_more data sk = (Inr data', sk') \<Longrightarrow>
   length data' + length (pending sk') = length data + length (pending sk)"
proof (induction data sk rule: recv_more.induct)
  case (1 data sk)
  obtain r sk1 where r: "recv size_recv sk = (r, sk1)" by (cases "recv size_recv sk")
  show ?case
  proof (cases r)
    case (Inl e)
    then show ?thesis using "1.prems" r by (subst (asm) recv_more.simps) simp
  next
    case (Inr d)
    note c = recv_consumes [OF r [unfolded Inr]]
    show ?thesis
    proof (cases "length d = 0")
      case True
      then show ?thesis using "1.prems" r Inr c by (subst (asm) recv_more.simps) simp
    next
      case False
      show ?thesis
      proof (cases "length (data @ d) = size_recv")
        case True
        then show ?thesis using "1.prems" r Inr c False by (subst (asm) recv_more.simps) auto
      next
        case ne: False
        have "recv_more (data @ d) sk1 = (Inr data', sk')"
          using "1.prems" r Inr False ne by (subst (asm) recv_more.simps) simp
        from "1.IH" [OF r [symmetric, unfolded Inr] _ False ne this] c
        show ?thesis by simp
      qed
    qed
  qed
qed

lemma recv_frame_in_consumes:
  assumes "recv_frame_in sk = (Inr data, sk')"
  shows "length data + length (pending sk') = length (pending sk)"
proof -
  obtain r sk1 where r: "recv size_recv sk = (r, sk1)" by (cases "recv size_recv sk")
  show ?thesis
  proof (cases r)
    case (Inl e)
    then show ?thesis using assms r by (simp add: recv_frame_in_def)
  next
    case (Inr d)
    note c = recv_consumes [OF r [unfolded Inr]]
    show ?thesis
    proof (cases "length d < size_recv")
      case True
      then have "recv_more d sk1 = (Inr data, sk')"
        using assms r Inr by (simp add: recv_frame_in_def)
      from recv_more_consumes [OF this] c show ?thesis by simp
    next
      case False
      then show ?thesis using assms r Inr c by (simp add: recv_frame_in_def)
    qed
  qed
qed

lemma recv_frame_in_shrinks:
  assumes "(Inr data, sk') = recv_frame_in sk" and "length data \<noteq> 0"
  shows "length (pending sk') < length (pending sk)"
proof -
  have "length data + length (pending sk') = length (pending sk)"
    by (rule recv_frame_in_consumes) (simp add: assms(1) [symmetric])
  moreover have "0 < length data" using assms(2) by simp
  ultimately show ?thesis by linarith
qed

text \<open>The local variables and the object that \<^verbatim>\<open>proc_serv_in\<close> works on: the
  inference context, the variable \<^verbatim>\<open>addr\<close> (unbound until the first
  \<^verbatim>\<open>accept\<close> returns), whether \<^verbatim>\<open>conn\<close> holds a socket, and the number of calls
  of \<^verbatim>\<open>process_vap\<close> so far, which selects the clock readings of the next call. The
  last three fields are traces: the windows handed to \<^verbatim>\<open>process_vap\<close>, the peers
  accepted, oldest first, and the number of passes of the outer loop that ended in
  \<^verbatim>\<open>bind\<close> raising.

  The accepted socket is never closed: the function has no \<^verbatim>\<open>conn.close()\<close> and no
  \<^verbatim>\<open>with\<close> block around it (the listening socket of \<^verbatim>\<open>proc_serv_out\<close>, line 329,
  has one), and \<^verbatim>\<open>conn\<close> keeps it until the next \<^verbatim>\<open>accept\<close> returns. The socket
  of line 356 is made without \<^verbatim>\<open>SO_REUSEADDR\<close>. So while \<^verbatim>\<open>conn\<close> holds a socket,
  the port is in use and \<^verbatim>\<open>bind\<close> at line 357 raises.\<close>

record 'e server =
  vap :: "'e VAPRealTime"
  addr :: "nat option"
  conn_open :: bool
  n_calls :: nat
  emitted :: "buffers list"
  accepted :: "nat list"
  bind_errors :: nat

text \<open>Line 397, with the bookkeeping of the traces.\<close>

definition call_process_vap ::
  "'e vap_model \<Rightarrow> (nat \<Rightarrow> clock_reads) \<Rightarrow> buffers \<Rightarrow> 'e server \<Rightarrow> exn option \<times> 'e server" where
  "call_process_vap m clock w st =
     (case process_vap m (fst w) (snd w) (clock (n_calls st)) (vap st) of
        (r, v) \<Rightarrow> (r, st\<lparr> vap := v, n_calls := Suc (n_calls st), emitted := emitted st @ [w] \<rparr>))"

text \<open>The inner loop, lines 367-401, on one connection. \<open>conv\<close> stands for
  \<^verbatim>\<open>util.conv_bytearray_2_2floatarray\<close>, which is not among the sources; \<open>None\<close> is an
  exception it raises. The result \<open>None\<close> is the \<^verbatim>\<open>break\<close> of line 385, \<open>Some e\<close> an
  exception that leaves the loop.\<close>

function serve_conn ::
  "'e vap_model \<Rightarrow> (byte list \<Rightarrow> buffers option) \<Rightarrow> (nat \<Rightarrow> clock_reads)
     \<Rightarrow> buffers \<Rightarrow> sock \<Rightarrow> 'e server \<Rightarrow> exn option \<times> 'e server" where
  "serve_conn m conv clock cur sk st =
     (case recv_frame_in sk of
        (Inl e, sk') \<Rightarrow> (Some e, st)
      | (Inr data, sk') \<Rightarrow>
          if length data = 0 then (None, st)
          else (case conv data of
                  None \<Rightarrow> (Some DecodeFault, st)
                | Some x \<Rightarrow>
                    (case ingest cur x of
                       (None, cur') \<Rightarrow> serve_conn m conv clock cur' sk' st
                     | (Some w, cur') \<Rightarrow>
                         (case call_process_vap m clock w st of
                            (Some e, st') \<Rightarrow> (Some e, st')
                          | (None, st') \<Rightarrow> serve_conn m conv clock cur' sk' st'))))"
  by pat_completeness auto
termination
proof (relation "measure (\<lambda>(m, conv, clock, cur, sk, st). length (pending sk))", goal_cases)
  case 1
  show ?case by simp
next
  case (2 m conv clock cur sk st x sk' data)
  then show ?case using recv_frame_in_shrinks [of data sk' sk] by simp
next
  case (3 m conv clock cur sk st x sk' data)
  then show ?case using recv_frame_in_shrinks [of data sk' sk] by simp
qed

declare serve_conn.simps [simp del]

text \<open>Where \<^verbatim>\<open>proc_serv_in\<close> stands at the end of a run: waiting in \<^verbatim>\<open>accept\<close>
  (line 361) for a producer, left by an exception that nothing caught, or still going
  round the outer loop when the passes looked at are used up.\<close>

datatype outcome = Listening | Exited exn | Passes_used

text \<open>The handler, lines 403-406. Its first statement reads \<^verbatim>\<open>addr\<close>; on an unbound
  variable that read raises inside the handler.\<close>

definition handler :: "'e server \<Rightarrow> exn option" where
  "handler st = (case addr st of None \<Rightarrow> Some UnboundLocal | Some a \<Rightarrow> None)"

text \<open>The outer loop, lines 354-406: as many passes as the first argument says, over the
  producers that try to connect, each with its address and the stream it will send. A pass
  sets up the socket; \<^verbatim>\<open>bind\<close> raises while the port is in use, and the handler sends
  the loop round again. Otherwise \<^verbatim>\<open>accept\<close> takes the next producer and the inner
  loop serves it; both ways out of the inner loop, the \<^verbatim>\<open>break\<close> and an exception,
  lead to the next pass.\<close>

fun proc_serv_in ::
  "nat \<Rightarrow> 'e vap_model \<Rightarrow> (byte list \<Rightarrow> buffers option) \<Rightarrow> (nat \<Rightarrow> clock_reads)
     \<Rightarrow> (nat \<times> sock) list \<Rightarrow> 'e server \<Rightarrow> outcome \<times> 'e server" where
  "proc_serv_in 0 m conv clock ps st = (Passes_used, st)"
| "proc_serv_in (Suc n) m conv clock ps st =
     (if conn_open st
      then (case handler st of
              Some e \<Rightarrow> (Exited e, st)
            | None \<Rightarrow> proc_serv_in n m conv clock ps (st\<lparr> bind_errors := Suc (bind_errors st) \<rparr>))
      else (case ps of
              [] \<Rightarrow> (Listening, st)
            | (a, sk) # ps' \<Rightarrow>
                (case serve_conn m conv clock init_buffers sk
                        (st\<lparr> addr := Some a, conn_open := True,
                             accepted := accepted st @ [a] \<rparr>) of
                   (None, st') \<Rightarrow> proc_serv_in n m conv clock ps' st'
                 | (Some e, st') \<Rightarrow>
                     (case handler st' of
                        Some e' \<Rightarrow> (Exited e', st')
                      | None \<Rightarrow> proc_serv_in n m conv clock ps' st'))))"

text \<open>The server as \<^verbatim>\<open>__main__\<close> starts it (line 483), on a fresh object.\<close>

definition init_server :: "'e server" where
  "init_server = \<lparr> vap = init_vap, addr = None, conn_open = False, n_calls = 0,
                     emitted = [], accepted = [], bind_errors = 0 \<rparr>"

text \<open>Modelled from the spec: \<^verbatim>\<open>util.conv_bytearray_2_2floatarray\<close> is not among the
  sources. By section 4.1 the payload of an input frame is interleaved 8-byte
  floating-point samples for channel 1 and channel 2, and decoding deinterleaves it into
  two sequences of equal length. The value of eight bytes as a float is the parameter
  \<open>f64\<close>; a byte string that is not a whole number of sample pairs is taken to
  raise.\<close>

fun deinterleave :: "(byte list \<Rightarrow> sample) \<Rightarrow> nat \<Rightarrow> byte list \<Rightarrow> buffers" where
  "deinterleave f64 0 bs = ([], [])"
| "deinterleave f64 (Suc n) bs =
     (case deinterleave f64 n (drop 16 bs) of
        (x1, x2) \<Rightarrow> (f64 (take 8 bs) # x1, f64 (take 8 (drop 8 bs)) # x2))"

definition conv_bytearray_2_2floatarray :: "(byte list \<Rightarrow> sample) \<Rightarrow> byte list \<Rightarrow> buffers option" where
  "conv_bytearray_2_2floatarray f64 bs =
     (if length bs mod 16 = 0 then Some (deinterleave f64 (length bs div 16) bs) else None)"

text \<open>A producer's stream for concrete runs: three whole input frames, then the producer
  closes its socket. The samples received, 480 per channel, do not fill a window.\<close>

definition three_frames :: sock where
  "three_frames = stream_of (concat (replicate 3 (replicate 2560 0)))"

section \<open>The inference thread and the distributor thread on the shared object\<close>

text \<open>The two threads share the \<^verbatim>\<open>VAPRealTime\<close> object without a lock. Under the
  interpreter's global lock a read or a write of one attribute is atomic, and a thread
  can be switched out between any two of them. The writes of one call of
  \<^verbatim>\<open>process_vap\<close>, in program order: lines 248, 249, 258-264 (the contexts, which the
  distributor never reads), 310, 311, 312, 317-322 (the list of latencies, likewise),
  and 324.\<close>

datatype 'e vap_op =
    Set_x1 "sample list"
  | Set_x2 "sample list"
  | Append_ctx 'e 'e
  | Set_react real
  | Set_emo real
  | Stamp_result real
  | Record_time real
  | Stamp_abs real

fun apply_op :: "'e vap_op \<Rightarrow> 'e VAPRealTime \<Rightarrow> 'e VAPRealTime" where
  "apply_op (Set_x1 xs) s = s\<lparr> current_x1_audio := xs \<rparr>"
| "apply_op (Set_x2 xs) s = s\<lparr> current_x2_audio := xs \<rparr>"
| "apply_op (Append_ctx e1 e2) s = append_context e1 e2 s"
| "apply_op (Set_react p) s = s\<lparr> result_p_bc_react := p \<rparr>"
| "apply_op (Set_emo p) s = s\<lparr> result_p_bc_emo := p \<rparr>"
| "apply_op (Stamp_result t) s = stamp_result t s"
| "apply_op (Record_time d) s = record_time d s"
| "apply_op (Stamp_abs t) s = stamp_abs t s"

text \<open>The writes of one call that starts on the object \<open>s\<close>. Only this thread writes
  the contexts, so what the model returns is fixed when the call starts.\<close>

definition call_ops :: "'e vap_model \<Rightarrow> vap_call \<Rightarrow> 'e VAPRealTime \<Rightarrow> 'e vap_op list" where
  "call_ops m c s =
     [Set_x1 (py_from frame_contxt_padding (call_x1 c)),
      Set_x2 (py_from frame_contxt_padding (call_x2 c))] @
     (case encode_audio m (call_x1 c) (call_x2 c) of
        None \<Rightarrow> []
      | Some (e1, e2) \<Rightarrow>
          Append_ctx e1 e2 #
          (case bc_heads m (limit_context (e1_context s @ [e1]))
                           (limit_context (e2_context s @ [e2])) of
             None \<Rightarrow> []
           | Some (p_react, p_emo) \<Rightarrow>
               [Set_react p_react, Set_emo p_emo,
                Stamp_result (t_result (call_clk c)),
                Record_time (t_process (call_clk c) - t_start (call_clk c)),
                Stamp_abs (t_abs (call_clk c))]))"

text \<open>Running a list of writes.\<close>

definition run_ops :: "'e vap_op list \<Rightarrow> 'e VAPRealTime \<Rightarrow> 'e VAPRealTime" where
  "run_ops ops s = foldl (\<lambda>v op. apply_op op v) s ops"

text \<open>The writes of successive calls.\<close>

fun all_ops :: "'e vap_model \<Rightarrow> vap_call list \<Rightarrow> 'e VAPRealTime \<Rightarrow> 'e vap_op list" where
  "all_ops m [] s = []"
| "all_ops m (c # cs) s =
     call_ops m c s @ all_ops m cs (snd (process_vap m (call_x1 c) (call_x2 c) (call_clk c) s))"

text \<open>The distributor, \<^verbatim>\<open>proc_serv_out_dist\<close> (lines 408-443), one attribute access at
  a time: line 410, the test of line 414, line 418, the five copies of lines 420-424, and
  the rest of the pass (lines 426-443), which builds the frame and broadcasts it.\<close>

datatype dist_pc =
    D_init | D_check | D_assign | D_copy_t | D_copy_x1 | D_copy_x2 | D_copy_react | D_copy_emo
  | D_send

text \<open>The distributor's local variables. \<^verbatim>\<open>previous_time\<close> is unbound before line 410
  has run; its value then is never read.\<close>

record dist_state =
  pc :: dist_pc
  previous_time :: real
  loc_t :: real
  loc_x1 :: "sample list"
  loc_x2 :: "sample list"
  loc_p_bc_react :: real
  loc_p_bc_emo :: real

definition init_dist :: dist_state where
  "init_dist = \<lparr> pc = D_init, previous_time = 0, loc_t = 0, loc_x1 = [], loc_x2 = [],
                  loc_p_bc_react = 0, loc_p_bc_emo = 0 \<rparr>"

text \<open>One step of the distributor on the object as it is at that moment.\<close>

definition dist_step :: "'e VAPRealTime \<Rightarrow> dist_state \<Rightarrow> dist_state" where
  "dist_step v d =
     (case pc d of
        D_init \<Rightarrow> d\<lparr> previous_time := process_time_abs v, pc := D_check \<rparr>
      | D_check \<Rightarrow> if previous_time d = process_time_abs v then d else d\<lparr> pc := D_assign \<rparr>
      | D_assign \<Rightarrow> d\<lparr> previous_time := process_time_abs v, pc := D_copy_t \<rparr>
      | D_copy_t \<Rightarrow> d\<lparr> loc_t := result_last_time v, pc := D_copy_x1 \<rparr>
      | D_copy_x1 \<Rightarrow> d\<lparr> loc_x1 := current_x1_audio v, pc := D_copy_x2 \<rparr>
      | D_copy_x2 \<Rightarrow> d\<lparr> loc_x2 := current_x2_audio v, pc := D_copy_react \<rparr>
      | D_copy_react \<Rightarrow> d\<lparr> loc_p_bc_react := result_p_bc_react v, pc := D_copy_emo \<rparr>
      | D_copy_emo \<Rightarrow> d\<lparr> loc_p_bc_emo := result_p_bc_emo v, pc := D_send \<rparr>
      | D_send \<Rightarrow> d\<lparr> pc := D_check \<rparr>)"

text \<open>Lines 426-430: the dictionary that the pass sends.\<close>

definition frame_of :: "dist_state \<Rightarrow> vap_result" where
  "frame_of d = \<lparr> res_t = loc_t d, res_x1 = loc_x1 d, res_x2 = loc_x2 d,
                   res_p_bc_react = loc_p_bc_react d, res_p_bc_emo = loc_p_bc_emo d \<rparr>"

text \<open>The two threads together. \<open>rest_ops\<close> are the writes the inference thread has
  still to make. Three fields are observations, not program state: how often line 312
  and line 324 have run, and the frames sent so far, each with the number of calls of
  \<^verbatim>\<open>process_vap\<close> that had reached line 324 when it was sent.\<close>

record 'e system =
  shared :: "'e VAPRealTime"
  rest_ops :: "'e vap_op list"
  dist :: dist_state
  n_published :: nat
  n_completed :: nat
  sends :: "(vap_result \<times> nat) list"

datatype tick = Vap_tick | Dist_tick

fun is_stamp_result :: "'e vap_op \<Rightarrow> bool" where
  "is_stamp_result (Stamp_result t) = True"
| "is_stamp_result _ = False"

fun is_stamp_abs :: "'e vap_op \<Rightarrow> bool" where
  "is_stamp_abs (Stamp_abs t) = True"
| "is_stamp_abs _ = False"

text \<open>One step of the thread that the scheduler picks. An inference thread with nothing
  left to write is waiting for audio.\<close>

definition vap_tick :: "'e system \<Rightarrow> 'e system" where
  "vap_tick sys =
     (case rest_ops sys of
        [] \<Rightarrow> sys
      | op # ops \<Rightarrow>
          sys\<lparr> shared := apply_op op (shared sys), rest_ops := ops,
               n_published := n_published sys + (if is_stamp_result op then 1 else 0),
               n_completed := n_completed sys + (if is_stamp_abs op then 1 else 0) \<rparr>)"

definition dist_tick :: "'e system \<Rightarrow> 'e system" where
  "dist_tick sys =
     sys\<lparr> dist := dist_step (shared sys) (dist sys),
          sends := (if pc (dist sys) = D_send
                    then sends sys @ [(frame_of (dist sys), n_completed sys)]
                    else sends sys) \<rparr>"

fun sys_step :: "tick \<Rightarrow> 'e system \<Rightarrow> 'e system" where
  "sys_step Vap_tick sys = vap_tick sys"
| "sys_step Dist_tick sys = dist_tick sys"

text \<open>A run under a schedule.\<close>

fun run :: "tick list \<Rightarrow> 'e system \<Rightarrow> 'e system" where
  "run [] sys = sys"
| "run (t # ts) sys = run ts (sys_step t sys)"

text \<open>Both threads at their start, on a fresh object, with the calls that the audio
  stream will cause.\<close>

definition init_system :: "'e vap_model \<Rightarrow> vap_call list \<Rightarrow> 'e system" where
  "init_system m cs = \<lparr> shared = init_vap, rest_ops = all_ops m cs init_vap, dist = init_dist,
                         n_published = 0, n_completed = 0, sends = [] \<rparr>"

text \<open>The timestamps of the frames sent, oldest first.\<close>

definition sent_times :: "'e system \<Rightarrow> real list" where
  "sent_times sys = map (\<lambda>fn. res_t (fst fn)) (sends sys)"

text \<open>The reading of the clock that each call takes for line 312. A call that raises
  before line 312 never writes its reading.\<close>

definition result_times :: "vap_call list \<Rightarrow> real list" where
  "result_times cs = map (\<lambda>c. t_result (call_clk c)) cs"

text \<open>A call with given readings of the clock at lines 312 and 324.\<close>

definition call_with :: "real \<Rightarrow> real \<Rightarrow> vap_call" where
  "call_with t a = \<lparr> call_x1 = [], call_x2 = [],
      call_clk = \<lparr> t_start = t - 1, t_result = t, t_process = t, t_abs = a \<rparr> \<rparr>"

text \<open>The values that a list of writes stores by line 312, in order.\<close>

fun stamp_of :: "'e vap_op \<Rightarrow> real list" where
  "stamp_of (Stamp_result t) = [t]"
| "stamp_of _ = []"

definition stamps :: "'e vap_op list \<Rightarrow> real list" where
  "stamps ops = concat (map stamp_of ops)"

text \<open>Program order of the two stamps: in a list of writes still to make, line 324
  comes only after line 312 has run, before the list (\<open>b\<close>) or within it.\<close>

fun ordered :: "bool \<Rightarrow> 'e vap_op list \<Rightarrow> bool" where
  "ordered b [] = True"
| "ordered b (op # ops) =
     (if is_stamp_result op then ordered True ops
      else if is_stamp_abs op then b \<and> ordered b ops
      else ordered b ops)"

text \<open>Where the distributor stands in its pass.\<close>

definition after_check :: "dist_pc \<Rightarrow> bool" where
  "after_check p \<longleftrightarrow> p \<noteq> D_init \<and> p \<noteq> D_check"

definition after_copy_t :: "dist_pc \<Rightarrow> bool" where
  "after_copy_t p \<longleftrightarrow> p \<noteq> D_init \<and> p \<noteq> D_check \<and> p \<noteq> D_assign \<and> p \<noteq> D_copy_t"

text \<open>What holds of the two threads at every moment of every run, for a set \<open>T\<close> that
  contains the values line 312 writes.\<close>

definition published_inv :: "real set \<Rightarrow> 'e system \<Rightarrow> bool" where
  "published_inv T sys \<longleftrightarrow>
     ordered (0 < n_published sys) (rest_ops sys)
     \<and> set (stamps (rest_ops sys)) \<subseteq> T
     \<and> (0 < n_completed sys \<longrightarrow> 0 < n_published sys)
     \<and> (0 < n_published sys \<longrightarrow> result_last_time (shared sys) \<in> T)
     \<and> (process_time_abs (shared sys) \<noteq> - 1 \<longrightarrow> 0 < n_completed sys)
     \<and> (pc (dist sys) \<noteq> D_init \<and> previous_time (dist sys) \<noteq> - 1 \<longrightarrow> 0 < n_completed sys)
     \<and> (after_check (pc (dist sys)) \<longrightarrow> 0 < n_completed sys)
     \<and> (after_copy_t (pc (dist sys)) \<longrightarrow> loc_t (dist sys) \<in> T)
     \<and> (\<forall>fn\<in>set (sends sys). 1 \<le> snd fn \<and> res_t (fst fn) \<in> T)"

text \<open>Three schedules for concrete runs. In the first the distributor's copy of line
  420 is delayed until the second call has run line 312; in the second the threads take
  turns, one whole call and one whole pass; the third is one call and one pass.\<close>

definition race_schedule :: "tick list" where
  "race_schedule = [Dist_tick, Vap_tick, Vap_tick, Vap_tick, Vap_tick, Vap_tick, Vap_tick, Vap_tick, Vap_tick, Dist_tick, Dist_tick, Vap_tick, Vap_tick, Vap_tick, Vap_tick, Vap_tick, Vap_tick, Dist_tick, Dist_tick, Dist_tick, Dist_tick, Dist_tick, Dist_tick, Dist_tick, Vap_tick, Vap_tick, Dist_tick, Dist_tick, Dist_tick, Dist_tick, Dist_tick, Dist_tick, Dist_tick, Dist_tick]"


definition first_schedule :: "tick list" where
  "first_schedule = [Dist_tick, Vap_tick, Vap_tick, Vap_tick, Vap_tick, Vap_tick, Vap_tick, Vap_tick, Vap_tick, Dist_tick, Dist_tick, Dist_tick, Dist_tick, Dist_tick, Dist_tick, Dist_tick, Dist_tick]"


text \<open>Program order of the two stamps, more closely: lines 312 and 324 alternate. In a
  list of writes still to make, \<open>b\<close> says that line 312 has run for a call that has
  not reached line 324 yet.\<close>

fun alternating :: "bool \<Rightarrow> 'e vap_op list \<Rightarrow> bool" where
  "alternating b [] = True"
| "alternating b (op # ops) =
     (if is_stamp_result op then \<not> b \<and> alternating True ops
      else if is_stamp_abs op then b \<and> alternating False ops
      else alternating b ops)"

text \<open>What holds at every moment of every run, for the list \<open>S\<close> of the values that
  line 312 writes over the whole run: the writes of line 312 made so far are the first
  \<open>n_published\<close> of them, at most one call stands between line 312 and line 324, and
  the timestamps that the distributor holds or has sent are among the values written when
  it copied them.\<close>

definition carried_inv :: "real list \<Rightarrow> 'e system \<Rightarrow> bool" where
  "carried_inv S sys \<longleftrightarrow>
     stamps (rest_ops sys) = drop (n_published sys) S
     \<and> alternating (n_published sys = Suc (n_completed sys)) (rest_ops sys)
     \<and> (n_published sys = n_completed sys \<or> n_published sys = Suc (n_completed sys))
     \<and> (0 < n_published sys \<longrightarrow>
          result_last_time (shared sys) \<in> set (take (n_published sys) S))
     \<and> (after_copy_t (pc (dist sys)) \<longrightarrow>
          loc_t (dist sys) \<in> set (take (n_published sys) S))
     \<and> (\<forall>fn\<in>set (sends sys). res_t (fst fn) \<in> set (take (Suc (snd fn)) S))"

section \<open>Properties of the window assembly\<close>

lemma length_concat_fixed1:
  "\<forall>x\<in>set xs. fixed_chunk x \<Longrightarrow> length (concat (map fst xs)) = 160 * length xs"
  by (induction xs) (auto simp: fixed_chunk_def FRAME_SIZE_INPUT_def)

lemma length_concat_fixed2:
  "\<forall>x\<in>set xs. fixed_chunk x \<Longrightarrow> length (concat (map snd xs)) = 160 * length xs"
  by (induction xs) (auto simp: fixed_chunk_def FRAME_SIZE_INPUT_def)

lemma length_stream1:
  "\<forall>x\<in>set xs. fixed_chunk x \<Longrightarrow> length (stream1 xs) = 320 + 160 * length xs"
  by (simp add: stream1_def init_buffers_def FRAME_SAVE_LAST_def length_concat_fixed1)

lemma length_stream2:
  "\<forall>x\<in>set xs. fixed_chunk x \<Longrightarrow> length (stream2 xs) = 320 + 160 * length xs"
  by (simp add: stream2_def init_buffers_def FRAME_SAVE_LAST_def length_concat_fixed2)

lemma stream1_snoc: "stream1 (pre @ [x]) = stream1 pre @ fst x"
  by (simp add: stream1_def)

lemma stream2_snoc: "stream2 (pre @ [x]) = stream2 pre @ snd x"
  by (simp add: stream2_def)

lemma stream1_append: "stream1 (pre @ xs) = stream1 pre @ concat (map fst xs)"
  by (simp add: stream1_def)

lemma stream2_append: "stream2 (pre @ xs) = stream2 pre @ concat (map snd xs)"
  by (simp add: stream2_def)

lemma append_carried:
  assumes "\<forall>x\<in>set pre. fixed_chunk x"
  shows "append_chunk (carried pre) x =
           (drop (FRAME_SIZE_VAP * (length pre div 10)) (stream1 (pre @ [x])),
            drop (FRAME_SIZE_VAP * (length pre div 10)) (stream2 (pre @ [x])))"
proof -
  have "FRAME_SIZE_VAP * (length pre div 10) \<le> length (stream1 pre)"
    using assms by (simp add: length_stream1 FRAME_SIZE_VAP_def)
  moreover have "FRAME_SIZE_VAP * (length pre div 10) \<le> length (stream2 pre)"
    using assms by (simp add: length_stream2 FRAME_SIZE_VAP_def)
  ultimately show ?thesis
    by (simp add: append_chunk_def carried_def stream1_snoc stream2_snoc)
qed

lemma div10_bounds: "10 * (n div 10) \<le> (n::nat) \<and> n < 10 * (n div 10) + 10"
proof -
  have "n = 10 * (n div 10) + n mod 10" by simp
  moreover have "n mod 10 < 10" by simp
  ultimately show ?thesis by linarith
qed

lemma suc_mod10_zero:
  assumes "Suc n mod 10 = 0"
  shows "n = 10 * (n div 10) + 9" and "Suc n div 10 = Suc (n div 10)"
proof -
  from assms obtain k where k: "Suc n = 10 * k" by (auto simp: mod_eq_0_iff_dvd elim: dvdE)
  then have "k > 0" by linarith
  then obtain j where j: "k = Suc j" by (cases k) auto
  have n: "n = 10 * j + 9" using k j by simp
  have "n div 10 = j" by (rule div_nat_eqI) (simp_all add: n)
  then show "n = 10 * (n div 10) + 9" using n by simp
  have "Suc n div 10 = k" by (simp add: k)
  then show "Suc n div 10 = Suc (n div 10)" using j \<open>n div 10 = j\<close> by simp
qed

lemma suc_mod10_nonzero:
  assumes "Suc n mod 10 \<noteq> 0"
  shows "n < 10 * (n div 10) + 9" and "Suc n div 10 = n div 10"
proof -
  have b: "10 * (n div 10) \<le> n" "n < 10 * (n div 10) + 10"
    using div10_bounds [of n] by simp_all
  have "n \<noteq> 10 * (n div 10) + 9"
  proof
    assume "n = 10 * (n div 10) + 9"
    then have "Suc n = 10 * Suc (n div 10)" by simp
    then have "Suc n mod 10 = 0" by (metis mod_mult_self1_is_0)
    with assms show False by simp
  qed
  with b show lt: "n < 10 * (n div 10) + 9" by linarith
  show "Suc n div 10 = n div 10"
    by (rule div_nat_eqI) (use b lt in simp_all)
qed


lemma ingest_carried:
  assumes pre: "\<forall>x\<in>set pre. fixed_chunk x" and x: "fixed_chunk x"
  shows "ingest (carried pre) x =
           (if Suc (length pre) mod 10 = 0 then Some (window_at (length pre div 10) (pre @ [x])) else None,
            carried (pre @ [x]))"
proof -
  define n where "n = length pre"
  define q where "q = n div 10"
  define s1 where "s1 = stream1 (pre @ [x])"
  define s2 where "s2 = stream2 (pre @ [x])"
  have all: "\<forall>y\<in>set (pre @ [x]). fixed_chunk y" using pre x by simp
  have l1: "length s1 = 480 + 160 * n"
    using length_stream1 [OF all] by (simp add: s1_def n_def)
  have l2: "length s2 = 480 + 160 * n"
    using length_stream2 [OF all] by (simp add: s2_def n_def)
  have ac: "append_chunk (carried pre) x = (drop (1600 * q) s1, drop (1600 * q) s2)"
    using append_carried [OF pre, of x] by (simp add: FRAME_SIZE_VAP_def q_def n_def s1_def s2_def)
  have cn: "carried (pre @ [x]) = (drop (1600 * (Suc n div 10)) s1, drop (1600 * (Suc n div 10)) s2)"
    by (simp add: carried_def FRAME_SIZE_VAP_def n_def s1_def s2_def)
  show ?thesis
  proof (cases "Suc n mod 10 = 0")
    case True
    have q: "n = 10 * q + 9" and q': "Suc n div 10 = Suc q"
      using suc_mod10_zero [OF True] by (simp_all add: q_def)
    have len1: "length (drop (1600 * q) s1) = 1920"
      unfolding length_drop l1 q by simp
    have len2: "length (drop (1600 * q) s2) = 1920"
      unfolding length_drop l2 q by simp
    have nr: "\<not> not_ready (drop (1600 * q) s1, drop (1600 * q) s2)"
      unfolding not_ready_def fst_conv len1 by (simp add: FRAME_SIZE_VAP_def FRAME_SAVE_LAST_def)
    have w: "window_at q (pre @ [x]) = (drop (1600 * q) s1, drop (1600 * q) s2)"
      unfolding window_at_def span_def FRAME_SIZE_VAP_def FRAME_SAVE_LAST_def
      using len1 len2 by (simp add: s1_def s2_def)
    have d1: "drop 1600 (drop (1600 * q) s1) = drop (1600 * Suc q) s1"
      by (simp add: add.commute)
    have d2: "drop 1600 (drop (1600 * q) s2) = drop (1600 * Suc q) s2"
      by (simp add: add.commute)
    have s: "save_last (drop (1600 * q) s1, drop (1600 * q) s2) = carried (pre @ [x])"
      unfolding save_last_def py_last_n_def fst_conv snd_conv len1 len2 cn q' FRAME_SAVE_LAST_def
      using d1 d2 by simp
    have "ingest (carried pre) x = (Some (window_at q (pre @ [x])), carried (pre @ [x]))"
      unfolding ingest_def ac Let_def using nr w s by simp
    then show ?thesis using True by (simp add: n_def q_def)
  next
    case False
    have lt: "n < 10 * q + 9" and q': "Suc n div 10 = q"
      using suc_mod10_nonzero [OF False] by (simp_all add: q_def)
    have len1: "length (drop (1600 * q) s1) < 1920"
      unfolding length_drop l1 using lt by simp
    have nr: "not_ready (drop (1600 * q) s1, drop (1600 * q) s2)"
      unfolding not_ready_def fst_conv using len1 by (simp add: FRAME_SIZE_VAP_def FRAME_SAVE_LAST_def)
    have "ingest (carried pre) x = (None, carried (pre @ [x]))"
      unfolding ingest_def ac Let_def cn q' using nr by simp
    then show ?thesis using False by (simp add: n_def)
  qed
qed

lemma span_append:
  assumes "FRAME_SIZE_VAP * k + (FRAME_SIZE_VAP + FRAME_SAVE_LAST) \<le> length s"
  shows "span k (s @ t) = span k s"
proof -
  have "FRAME_SIZE_VAP * k \<le> length s" using assms by simp
  moreover have "FRAME_SIZE_VAP + FRAME_SAVE_LAST \<le> length (drop (FRAME_SIZE_VAP * k) s)"
    using assms by simp
  ultimately show ?thesis by (simp add: span_def)
qed

lemma window_at_append:
  assumes pre: "\<forall>x\<in>set pre. fixed_chunk x" and k: "10 * k + 10 \<le> length pre"
  shows "window_at k (pre @ xs) = window_at k pre"
proof -
  have "FRAME_SIZE_VAP * k + (FRAME_SIZE_VAP + FRAME_SAVE_LAST) \<le> length (stream1 pre)"
    unfolding length_stream1 [OF pre] FRAME_SIZE_VAP_def FRAME_SAVE_LAST_def using k by simp
  moreover have "FRAME_SIZE_VAP * k + (FRAME_SIZE_VAP + FRAME_SAVE_LAST) \<le> length (stream2 pre)"
    unfolding length_stream2 [OF pre] FRAME_SIZE_VAP_def FRAME_SAVE_LAST_def using k by simp
  ultimately show ?thesis
    by (simp add: window_at_def stream1_append stream2_append span_append)
qed

lemma ingest_all_carried:
  assumes "\<forall>x\<in>set pre. fixed_chunk x" and "\<forall>x\<in>set xs. fixed_chunk x"
  shows "ingest_all (carried pre) xs =
           (map (\<lambda>k. window_at k (pre @ xs)) [length pre div 10 ..< (length pre + length xs) div 10],
            carried (pre @ xs))"
  using assms
proof (induction xs arbitrary: pre)
  case Nil
  then show ?case by simp
next
  case (Cons x xs)
  let ?n = "length pre" and ?m = "(Suc (length pre) + length xs) div 10"
  have pre': "\<forall>y\<in>set (pre @ [x]). fixed_chunk y" using Cons.prems by simp
  have xs: "\<forall>y\<in>set xs. fixed_chunk y" and x: "fixed_chunk x" using Cons.prems by simp_all
  have IH: "ingest_all (carried (pre @ [x])) xs =
      (map (\<lambda>k. window_at k (pre @ x # xs)) [Suc ?n div 10 ..< ?m], carried (pre @ x # xs))"
    using Cons.IH [OF pre' xs] by simp
  have step: "ingest (carried pre) x =
      (if Suc ?n mod 10 = 0 then Some (window_at (?n div 10) (pre @ [x])) else None, carried (pre @ [x]))"
    using ingest_carried [OF Cons.prems(1) x] .
  show ?case
  proof (cases "Suc ?n mod 10 = 0")
    case True
    have q: "?n = 10 * (?n div 10) + 9" and q': "Suc ?n div 10 = Suc (?n div 10)"
      using suc_mod10_zero [OF True] by simp_all
    have "Suc ?n div 10 \<le> ?m" by (rule div_le_mono) simp
    then have lt: "?n div 10 < ?m" using q' by simp
    have "10 * (?n div 10) + 10 \<le> length (pre @ [x])" using q by simp
    then have w: "window_at (?n div 10) ((pre @ [x]) @ xs) = window_at (?n div 10) (pre @ [x])"
      using window_at_append [OF pre'] by blast
    have "[?n div 10 ..< ?m] = ?n div 10 # [Suc ?n div 10 ..< ?m]"
      using lt q' by (simp add: upt_conv_Cons)
    then show ?thesis using True step IH w by simp
  next
    case False
    have "Suc ?n div 10 = ?n div 10" using suc_mod10_nonzero [OF False] by simp
    then show ?thesis using False step IH by simp
  qed
qed

lemma carried_Nil: "carried [] = init_buffers"
  by (simp add: carried_def stream1_def stream2_def)

lemma ingest_all_init:
  assumes "\<forall>x\<in>set xs. fixed_chunk x"
  shows "ingest_all init_buffers xs =
           (map (\<lambda>k. window_at k xs) [0 ..< length xs div 10], carried xs)"
  using ingest_all_carried [of "[]" xs] assms by (simp add: carried_Nil)

lemma length_window_at:
  assumes xs: "\<forall>x\<in>set xs. fixed_chunk x" and k: "k < length xs div 10"
  shows "length (fst (window_at k xs)) = 1920" and "length (snd (window_at k xs)) = 1920"
proof -
  have b: "10 * (length xs div 10) \<le> length xs" using div10_bounds [of "length xs"] by simp
  have "10 * k + 10 \<le> 10 * (length xs div 10)" using k by simp
  then have kk: "1600 * k + 1920 \<le> 320 + 160 * length xs" using b by linarith
  show "length (fst (window_at k xs)) = 1920"
    unfolding window_at_def span_def fst_conv length_take length_drop length_stream1 [OF xs]
      FRAME_SIZE_VAP_def FRAME_SAVE_LAST_def using kk by simp
  show "length (snd (window_at k xs)) = 1920"
    unfolding window_at_def span_def snd_conv length_take length_drop length_stream2 [OF xs]
      FRAME_SIZE_VAP_def FRAME_SAVE_LAST_def using kk by simp
qed

lemma length_carried:
  assumes xs: "\<forall>x\<in>set xs. fixed_chunk x"
  shows "length (fst (carried xs)) = 320 + 160 * (length xs mod 10)"
    and "length (snd (carried xs)) = 320 + 160 * (length xs mod 10)"
proof -
  have "length xs = 10 * (length xs div 10) + length xs mod 10" by simp
  then have e: "320 + 160 * length xs - 1600 * (length xs div 10) = 320 + 160 * (length xs mod 10)"
    by linarith
  show "length (fst (carried xs)) = 320 + 160 * (length xs mod 10)"
    unfolding carried_def fst_conv length_drop length_stream1 [OF xs] FRAME_SIZE_VAP_def
    using e by simp
  show "length (snd (carried xs)) = 320 + 160 * (length xs mod 10)"
    unfolding carried_def snd_conv length_drop length_stream2 [OF xs] FRAME_SIZE_VAP_def
    using e by simp
qed


text \<open>
  Claim C1. Starting from buffers of 320 zero samples and fed chunks of 160 samples per
  channel: at every chunk the loop body either finds fewer than 1920 samples in a buffer
  and emits nothing, keeping the appended buffers, or emits the whole buffers as the
  window and keeps the last 320 samples of each; every emitted window has 1920 samples
  per channel; and the \<open>k\<close>-th window emitted is the span of the stream starting at
  sample \<open>1600 * k\<close>, so the windows come in arrival order, one per span.
\<close>

theorem assembler_windows:
  assumes fixed: "\<forall>x\<in>set xs. fixed_chunk x"
  shows "fst (ingest_all init_buffers xs) = map (\<lambda>k. window_at k xs) [0 ..< length xs div 10]
       \<and> (\<forall>w\<in>set (fst (ingest_all init_buffers xs)). length (fst w) = 1920 \<and> length (snd w) = 1920)
       \<and> (\<forall>n<length xs.
            let cur = snd (ingest_all init_buffers (take n xs));
                full = append_chunk cur (xs ! n)
            in if length (fst full) < 1920 \<or> length (snd full) < 1920
               then ingest cur (xs ! n) = (None, full)
               else ingest cur (xs ! n) = (Some full, (py_last_n 320 (fst full), py_last_n 320 (snd full)))
                  \<and> length (fst full) = 1920 \<and> length (snd full) = 1920
                  \<and> length (py_last_n 320 (fst full)) = 320
                  \<and> length (py_last_n 320 (snd full)) = 320)"
proof (intro conjI allI impI ballI)
  show ws: "fst (ingest_all init_buffers xs) = map (\<lambda>k. window_at k xs) [0 ..< length xs div 10]"
    using ingest_all_init [OF fixed] by simp
  fix w assume "w \<in> set (fst (ingest_all init_buffers xs))"
  then obtain k where k: "k < length xs div 10" and w: "w = window_at k xs"
    unfolding ws by auto
  show "length (fst w) = 1920" using length_window_at(1) [OF fixed k] w by simp
  show "length (snd w) = 1920" using length_window_at(2) [OF fixed k] w by simp
next
  fix n assume n: "n < length xs"
  define pre where "pre = take n xs"
  define x where "x = xs ! n"
  define cur where "cur = snd (ingest_all init_buffers pre)"
  define full where "full = append_chunk cur x"
  have pre: "\<forall>y\<in>set pre. fixed_chunk y"
    unfolding pre_def using fixed by (meson in_set_takeD)
  have x: "fixed_chunk x" unfolding x_def using fixed n by simp
  have lp: "length pre = n" unfolding pre_def using n by simp
  have cur: "cur = carried pre" unfolding cur_def using ingest_all_init [OF pre] by simp
  have m: "n mod 10 < 10" by simp
  have l1: "length (fst full) = 480 + 160 * (n mod 10)"
    unfolding full_def append_chunk_def fst_conv length_append cur length_carried(1) [OF pre] lp
    using x by (simp add: fixed_chunk_def FRAME_SIZE_INPUT_def)
  have l2: "length (snd full) = 480 + 160 * (n mod 10)"
    unfolding full_def append_chunk_def snd_conv length_append cur length_carried(2) [OF pre] lp
    using x by (simp add: fixed_chunk_def FRAME_SIZE_INPUT_def)
  have le: "length (fst full) \<le> 1920" "length (snd full) \<le> 1920"
    unfolding l1 l2 using m by linarith+
  have ing: "ingest cur x = (if length (fst full) < 1920 then (None, full)
      else (Some full, (py_last_n 320 (fst full), py_last_n 320 (snd full))))"
    by (simp add: ingest_def Let_def full_def not_ready_def save_last_def
        FRAME_SIZE_VAP_def FRAME_SAVE_LAST_def)
  have "if length (fst full) < 1920 \<or> length (snd full) < 1920
        then ingest cur x = (None, full)
        else ingest cur x = (Some full, (py_last_n 320 (fst full), py_last_n 320 (snd full)))
           \<and> length (fst full) = 1920 \<and> length (snd full) = 1920
           \<and> length (py_last_n 320 (fst full)) = 320
           \<and> length (py_last_n 320 (snd full)) = 320"
  proof (cases "length (fst full) < 1920")
    case True
    then show ?thesis using ing by simp
  next
    case False
    then have e1: "length (fst full) = 1920" using le by simp
    then have e2: "length (snd full) = 1920" using l1 l2 by simp
    show ?thesis using ing e1 e2 by (simp add: py_last_n_def)
  qed
  then show "let cur = snd (ingest_all init_buffers (take n xs));
                full = append_chunk cur (xs ! n)
            in if length (fst full) < 1920 \<or> length (snd full) < 1920
               then ingest cur (xs ! n) = (None, full)
               else ingest cur (xs ! n) = (Some full, (py_last_n 320 (fst full), py_last_n 320 (snd full)))
                  \<and> length (fst full) = 1920 \<and> length (snd full) = 1920
                  \<and> length (py_last_n 320 (fst full)) = 320
                  \<and> length (py_last_n 320 (snd full)) = 320"
    unfolding Let_def full_def cur_def pre_def x_def .
qed

theorem assembler_windows_witness:
  "fixed_chunk (replicate 160 1, replicate 160 2)
   \<and> fst (ingest_all init_buffers (replicate 20 (replicate 160 1, replicate 160 2)))
       = [window_at 0 (replicate 20 (replicate 160 1, replicate 160 2)),
          window_at 1 (replicate 20 (replicate 160 1, replicate 160 2))]"
proof -
  have h: "\<forall>x\<in>set (replicate 20 (replicate 160 1, replicate 160 2)). fixed_chunk x"
    by (simp add: fixed_chunk_def FRAME_SIZE_INPUT_def)
  have u: "[0 ..< length (replicate 20 (replicate 160 (1::real), replicate 160 (2::real))) div 10] = [0, 1]"
    by (simp add: upt_rec)
  have c: "fixed_chunk (replicate 160 1, replicate 160 2)"
    by (simp add: fixed_chunk_def FRAME_SIZE_INPUT_def)
  show ?thesis using c assembler_windows [OF h] unfolding u by simp
qed

text \<open>
  Claim C2, as stated, fails: of 11 chunks the 10th already completes the window
  (320 + 10 * 160 = 1920), and after the 11th each buffer holds 480 samples, not 320.
\<close>

theorem eleven_chunks_counterexample:
  "fst (ingest_all init_buffers (replicate 10 (replicate 160 0, replicate 160 0))) \<noteq> []
   \<and> length (fst (snd (ingest_all init_buffers (replicate 11 (replicate 160 0, replicate 160 0))))) \<noteq> 320"
proof -
  have h10: "\<forall>x\<in>set (replicate 10 (replicate 160 (0::real), replicate 160 (0::real))). fixed_chunk x"
    by (simp add: fixed_chunk_def FRAME_SIZE_INPUT_def)
  have h11: "\<forall>x\<in>set (replicate 11 (replicate 160 (0::real), replicate 160 (0::real))). fixed_chunk x"
    by (simp add: fixed_chunk_def FRAME_SIZE_INPUT_def)
  have "fst (ingest_all init_buffers (replicate 10 (replicate 160 0, replicate 160 0))) \<noteq> []"
    unfolding ingest_all_init [OF h10] by simp
  moreover have "length (fst (snd (ingest_all init_buffers (replicate 11 (replicate 160 0, replicate 160 0))))) = 480"
    unfolding ingest_all_init [OF h11] snd_conv length_carried(1) [OF h11] by simp
  ultimately show ?thesis by simp
qed

text \<open>
  Claim C2, amended. Of 11 chunks of 160 samples per channel fed to fresh buffers,
  exactly one window is produced; it is produced by the 10th chunk (none after 9), has
  1920 samples per channel, and after the 11th chunk each buffer holds 480 samples.
\<close>

theorem eleven_chunks:
  assumes len: "length xs = 11" and fixed: "\<forall>x\<in>set xs. fixed_chunk x"
  shows "fst (ingest_all init_buffers (take 9 xs)) = []
       \<and> fst (ingest_all init_buffers (take 10 xs)) = [window_at 0 xs]
       \<and> fst (ingest_all init_buffers xs) = [window_at 0 xs]
       \<and> length (fst (window_at 0 xs)) = 1920 \<and> length (snd (window_at 0 xs)) = 1920
       \<and> length (fst (snd (ingest_all init_buffers xs))) = 480
       \<and> length (snd (snd (ingest_all init_buffers xs))) = 480"
proof -
  have f9: "\<forall>x\<in>set (take 9 xs). fixed_chunk x" using fixed by (meson in_set_takeD)
  have f10: "\<forall>x\<in>set (take 10 xs). fixed_chunk x" using fixed by (meson in_set_takeD)
  have l9: "length (take 9 xs) = 9" and l10: "length (take 10 xs) = 10" using len by simp_all
  have w: "window_at 0 (take 10 xs @ drop 10 xs) = window_at 0 (take 10 xs)"
    by (rule window_at_append [OF f10]) (simp add: len)
  have a: "fst (ingest_all init_buffers (take 9 xs)) = []"
    unfolding ingest_all_init [OF f9] l9 by simp
  have b: "fst (ingest_all init_buffers (take 10 xs)) = [window_at 0 xs]"
    unfolding ingest_all_init [OF f10] l10 using w by simp
  have c: "fst (ingest_all init_buffers xs) = [window_at 0 xs]"
    unfolding ingest_all_init [OF fixed] len by simp
  have k: "0 < length xs div 10" unfolding len by simp
  have d: "length (fst (window_at 0 xs)) = 1920" "length (snd (window_at 0 xs)) = 1920"
    using length_window_at [OF fixed k] by simp_all
  have e: "length (fst (snd (ingest_all init_buffers xs))) = 480"
    unfolding ingest_all_init [OF fixed] snd_conv length_carried(1) [OF fixed] len by simp
  have f: "length (snd (snd (ingest_all init_buffers xs))) = 480"
    unfolding ingest_all_init [OF fixed] snd_conv length_carried(2) [OF fixed] len by simp
  show ?thesis using a b c d e f by simp
qed

theorem eleven_chunks_witness:
  "length (replicate 11 (replicate 160 (1::real), replicate 160 (2::real))) = 11
   \<and> fixed_chunk (replicate 160 1, replicate 160 2)
   \<and> fst (ingest_all init_buffers (replicate 11 (replicate 160 1, replicate 160 2)))
       = [window_at 0 (replicate 11 (replicate 160 1, replicate 160 2))]
   \<and> length (fst (snd (ingest_all init_buffers (replicate 11 (replicate 160 1, replicate 160 2))))) = 480"
proof -
  have l: "length (replicate 11 (replicate 160 (1::real), replicate 160 (2::real))) = 11" by simp
  have h: "\<forall>x\<in>set (replicate 11 (replicate 160 (1::real), replicate 160 (2::real))). fixed_chunk x"
    by (simp add: fixed_chunk_def FRAME_SIZE_INPUT_def)
  have c: "fixed_chunk (replicate 160 1, replicate 160 2)"
    by (simp add: fixed_chunk_def FRAME_SIZE_INPUT_def)
  show ?thesis using l c eleven_chunks [OF l h] by simp
qed

section \<open>Properties of the inference context\<close>

lemma limit_context_last: "limit_context ctx = py_last_n AUDIO_CONTEXT_LIM ctx"
  by (simp add: limit_context_def py_last_n_def)

lemma py_last_n_snoc: "py_last_n n (py_last_n n xs @ [e]) = py_last_n n (xs @ [e])"
  by (cases "length xs \<le> n") (simp_all add: py_last_n_def Suc_diff_le)

lemma length_py_last_n: "length (py_last_n n xs) = min n (length xs)"
  by (simp add: py_last_n_def)

lemma process_vap_e1:
  "e1_context (snd (process_vap m x1 x2 clk s)) =
     (case encode_audio m x1 x2 of None \<Rightarrow> e1_context s
      | Some (e1, e2) \<Rightarrow> limit_context (e1_context s @ [e1]))"
  by (simp add: process_vap_def Let_def save_current_audio_def append_context_def store_result_def
      stamp_result_def record_time_def stamp_abs_def split: option.splits prod.splits)

lemma process_vap_e2:
  "e2_context (snd (process_vap m x1 x2 clk s)) =
     (case encode_audio m x1 x2 of None \<Rightarrow> e2_context s
      | Some (e1, e2) \<Rightarrow> limit_context (e2_context s @ [e2]))"
  by (simp add: process_vap_def Let_def save_current_audio_def append_context_def store_result_def
      stamp_result_def record_time_def stamp_abs_def split: option.splits prod.splits)

lemma process_all_e1:
  "e1_context s = py_last_n AUDIO_CONTEXT_LIM pre \<Longrightarrow>
   e1_context (process_all m cs s) = py_last_n AUDIO_CONTEXT_LIM (pre @ inserted1 m cs)"
proof (induction cs arbitrary: s pre)
  case Nil
  then show ?case by (simp add: inserted1_def)
next
  case (Cons c cs)
  let ?s = "snd (process_vap m (call_x1 c) (call_x2 c) (call_clk c) s)"
  let ?ins = "case encode_audio m (call_x1 c) (call_x2 c) of None \<Rightarrow> [] | Some (e1, e2) \<Rightarrow> [e1]"
  have "e1_context ?s = py_last_n AUDIO_CONTEXT_LIM (pre @ ?ins)"
    using Cons.prems
    by (simp add: process_vap_e1 limit_context_last py_last_n_snoc split: option.splits)
  from Cons.IH [OF this] show ?case by (simp add: inserted1_def)
qed

lemma process_all_e2:
  "e2_context s = py_last_n AUDIO_CONTEXT_LIM pre \<Longrightarrow>
   e2_context (process_all m cs s) = py_last_n AUDIO_CONTEXT_LIM (pre @ inserted2 m cs)"
proof (induction cs arbitrary: s pre)
  case Nil
  then show ?case by (simp add: inserted2_def)
next
  case (Cons c cs)
  let ?s = "snd (process_vap m (call_x1 c) (call_x2 c) (call_clk c) s)"
  let ?ins = "case encode_audio m (call_x1 c) (call_x2 c) of None \<Rightarrow> [] | Some (e1, e2) \<Rightarrow> [e2]"
  have "e2_context ?s = py_last_n AUDIO_CONTEXT_LIM (pre @ ?ins)"
    using Cons.prems
    by (simp add: process_vap_e2 limit_context_last py_last_n_snoc split: option.splits)
  from Cons.IH [OF this] show ?case by (simp add: inserted2_def)
qed

lemma contexts_of_run:
  "e1_context (process_all m cs init_vap) = py_last_n AUDIO_CONTEXT_LIM (inserted1 m cs)"
  "e2_context (process_all m cs init_vap) = py_last_n AUDIO_CONTEXT_LIM (inserted2 m cs)"
  using process_all_e1 [of init_vap "[]" m cs] process_all_e2 [of init_vap "[]" m cs]
  by (simp_all add: init_vap_def py_last_n_def)

text \<open>
  Claim C3. Over any sequence of calls of the inference step on a fresh object, the
  context of each channel never holds more than 50 embeddings after a step, and once
  more than 50 embeddings have been inserted it holds exactly 50: the last 50 inserted,
  in the order of insertion.
\<close>

theorem embedding_context_fifo:
  "(\<forall>k. length (e1_context (process_all m (take k cs) init_vap)) \<le> 50
       \<and> length (e2_context (process_all m (take k cs) init_vap)) \<le> 50)
   \<and> (length (inserted1 m cs) > 50 \<longrightarrow>
        length (e1_context (process_all m cs init_vap)) = 50
        \<and> e1_context (process_all m cs init_vap)
            = drop (length (inserted1 m cs) - 50) (inserted1 m cs))
   \<and> (length (inserted2 m cs) > 50 \<longrightarrow>
        length (e2_context (process_all m cs init_vap)) = 50
        \<and> e2_context (process_all m cs init_vap)
            = drop (length (inserted2 m cs) - 50) (inserted2 m cs))"
  by (simp add: contexts_of_run length_py_last_n AUDIO_CONTEXT_LIM_def)
    (simp add: py_last_n_def)

lemma concat_replicate_single: "concat (replicate n [a]) = replicate n a"
  by (induction n) simp_all

lemma inserted1_const: "inserted1 const_model (replicate n (call_at t)) = replicate n 0"
  by (simp add: inserted1_def const_model_def call_at_def concat_replicate_single)

theorem embedding_context_fifo_witness:
  "length (inserted1 const_model (replicate 60 (call_at 0))) > 50
   \<and> e1_context (process_all const_model (replicate 60 (call_at 0)) init_vap) = replicate 50 0"
  using embedding_context_fifo [of const_model "replicate 60 (call_at 0)"]
  by (simp add: inserted1_const)


lemma process_all_append: "process_all m (xs @ ys) s = process_all m ys (process_all m xs s)"
  by (induction xs arbitrary: s) simp_all

lemma const_step_times:
  "list_process_time_context (snd (process_vap const_model (call_x1 (call_at t)) (call_x2 (call_at t))
       (call_clk (call_at t)) s)) =
     (if length (list_process_time_context s) \<ge> CALC_PROCESS_TIME_INTERVAL then []
      else list_process_time_context s @ [1])"
  by (simp add: process_vap_def Let_def const_model_def call_at_def save_current_audio_def
      append_context_def store_result_def stamp_result_def record_time_def stamp_abs_def)

lemma const_step_printed:
  "printed_ave (snd (process_vap const_model (call_x1 (call_at t)) (call_x2 (call_at t))
       (call_clk (call_at t)) s)) =
     (if length (list_process_time_context s) \<ge> CALC_PROCESS_TIME_INTERVAL
      then printed_ave s @ [average (list_process_time_context s @ [1])]
      else printed_ave s)"
  by (simp add: process_vap_def Let_def const_model_def call_at_def save_current_audio_def
      append_context_def store_result_def stamp_result_def record_time_def stamp_abs_def)

lemma const_run_times:
  "length (list_process_time_context s) + n \<le> CALC_PROCESS_TIME_INTERVAL \<Longrightarrow>
   list_process_time_context (process_all const_model (replicate n (call_at t)) s)
     = list_process_time_context s @ replicate n 1
   \<and> printed_ave (process_all const_model (replicate n (call_at t)) s) = printed_ave s"
proof (induction n arbitrary: s)
  case 0
  then show ?case by simp
next
  case (Suc n)
  let ?s = "snd (process_vap const_model (call_x1 (call_at t)) (call_x2 (call_at t))
       (call_clk (call_at t)) s)"
  have lt: "\<not> length (list_process_time_context s) \<ge> CALC_PROCESS_TIME_INTERVAL"
    using Suc.prems by simp
  have l: "list_process_time_context ?s = list_process_time_context s @ [1]"
    using lt by (simp only: const_step_times if_False)
  have p: "printed_ave ?s = printed_ave s"
    using lt by (simp only: const_step_printed if_False)
  have "length (list_process_time_context ?s) + n \<le> CALC_PROCESS_TIME_INTERVAL"
    using Suc.prems l by simp
  from Suc.IH [OF this] show ?case
    by (simp add: l p replicate_app_Cons_same)
qed

text \<open>
  Claim C9 against the code. After 100 steps nothing has been printed and the list holds
  all 100 latencies; the first report comes with step 101, as the mean of 101 entries,
  and clears the list. The test of line 319 is \<open>len > 100\<close>, so the period of the
  reports is 101 steps, not 100.
\<close>

theorem latency_report_period:
  "printed_ave (process_all const_model (replicate 100 (call_at 0)) init_vap) = []
   \<and> list_process_time_context (process_all const_model (replicate 100 (call_at 0)) init_vap)
       = replicate 100 1
   \<and> printed_ave (process_all const_model (replicate 101 (call_at 0)) init_vap) = [1]
   \<and> list_process_time_context (process_all const_model (replicate 101 (call_at 0)) init_vap) = []"
proof -
  let ?s = "process_all const_model (replicate 100 (call_at 0)) (init_vap :: nat VAPRealTime)"
  have "length (list_process_time_context (init_vap :: nat VAPRealTime)) + 100
          \<le> CALC_PROCESS_TIME_INTERVAL"
    by (simp add: init_vap_def CALC_PROCESS_TIME_INTERVAL_def)
  from const_run_times [OF this, of 0]
  have l: "list_process_time_context ?s = replicate 100 1" and p: "printed_ave ?s = []"
    by (simp_all add: init_vap_def)
  have "replicate (Suc 100) (call_at 0) = replicate 100 (call_at 0) @ [call_at 0]"
    by (simp only: replicate_append_same replicate_Suc)
  then have r: "replicate 101 (call_at 0) = replicate 100 (call_at 0) @ [call_at 0]"
    by simp
  have l': "list_process_time_context (process_all const_model (replicate 101 (call_at 0)) init_vap) = []"
    unfolding r process_all_append
    by (simp add: const_step_times l CALC_PROCESS_TIME_INTERVAL_def)
  have a: "average (replicate 100 1 @ [1]) = 1"
    by (simp add: average_def sum_list_replicate)
  have p': "printed_ave (process_all const_model (replicate 101 (call_at 0)) init_vap) = [1]"
    unfolding r process_all_append
    by (simp add: const_step_printed l p a CALC_PROCESS_TIME_INTERVAL_def)
  show ?thesis using l p l' p' by simp
qed

section \<open>Properties of the wire shapes\<close>





lemma recv_stream_of: "recv n (stream_of bs) = (Inr (take n bs), stream_of (drop n bs))"
  by (simp add: recv_def stream_of_def)

lemma recv_frame_in_ready:
  assumes "size_recv \<le> length bs"
  shows "recv_frame_in (stream_of bs) = (Inr (take size_recv bs), stream_of (drop size_recv bs))"
  using assms by (simp add: recv_frame_in_def recv_stream_of)


lemma recv_closed: "recv n (stream_of []) = (Inr [], stream_of [])"
  by (simp add: recv_stream_of)

lemma recv_payload_returns:
  assumes "recv_payload sz data sk = Some y"
  shows "\<not> (sk = stream_of [] \<and> length data < sz)"
proof (rule recv_payload.raw_induct
    [where P = "\<lambda>sz data sk y. \<not> (sk = stream_of [] \<and> length data < sz)", OF _ assms])
  fix f :: "nat \<Rightarrow> byte list \<Rightarrow> sock \<Rightarrow> ((exn + byte list) \<times> sock) option"
    and sz data sk y
  assume IH: "\<And>sz data sk y. f sz data sk = Some y \<Longrightarrow> \<not> (sk = stream_of [] \<and> length data < sz)"
    and step: "(if length data < sz
      then case recv (sz - length data) sk of
           (Inl e, sk') \<Rightarrow> Some (Inl e, sk')
           | (Inr data', sk') \<Rightarrow> f sz (data @ data') sk'
      else Some (Inr data, sk)) = Some y"
  show "\<not> (sk = stream_of [] \<and> length data < sz)"
  proof
    assume a: "sk = stream_of [] \<and> length data < sz"
    with step have "f sz data (stream_of []) = Some y"
      by (simp add: recv_closed)
    from IH [OF this] a show False by simp
  qed
qed

lemma recv_payload_closed:
  "length data < sz \<Longrightarrow> recv_payload sz data (stream_of []) = None"
  using recv_payload_returns [of sz data "stream_of []"] by (cases "recv_payload sz data (stream_of [])") auto

text \<open>
  Claim C8 against the code. The consumer is sent a header that declares five bytes,
  then two bytes, then the peer closes. The claim has the decoder fail with an error;
  the loop of lines 25-26 of console.py never returns.
\<close>

theorem consumer_short_frame:
  "recv_frame_out (stream_of [5, 0, 0, 0, 1, 2]) = None"
proof -
  have "recv_payload 5 [1, 2] (stream_of []) = None"
    by (rule recv_payload_closed) simp
  then show ?thesis
    by (simp add: recv_frame_out_def recv_stream_of)
qed












text \<open>
  The input server's own read loop has the mirror defect of the consumer's: it stops on
  an empty read, but asks for the whole \<^verbatim>\<open>size_recv\<close> again instead of the bytes still
  missing. When a first read returns 16 bytes and the next frame is already there, the
  loop takes all of it, passes the 2560 bytes it was looking for, and hands 2576 bytes to
  the decoder once the peer has closed.
\<close>

lemma server_read_overshoots:
  "fst (recv_frame_in \<lparr> pending = replicate 16 1 @ replicate 2560 2, events = [Avail 15] \<rparr>)
     = Inr (replicate 16 1 @ replicate 2560 2)"
proof -
  have sz: "size_recv = 2560" by (simp add: size_recv_def FRAME_SIZE_INPUT_def)
  let ?sk1 = "\<lparr> pending = replicate 2560 (2 :: byte), events = [] \<rparr>"
  let ?sk2 = "\<lparr> pending = ([] :: byte list), events = [] \<rparr>"
  have r1: "recv 2560 \<lparr> pending = replicate 16 1 @ replicate 2560 2, events = [Avail 15] \<rparr>
      = (Inr (replicate 16 1), ?sk1)"
    by (simp add: recv_def)
  have r2: "recv 2560 ?sk1 = (Inr (replicate 2560 2), ?sk2)"
    by (simp add: recv_def)
  have r3: "recv 2560 ?sk2 = (Inr [], ?sk2)"
    by (simp add: recv_def)
  have m2: "recv_more (replicate 16 1 @ replicate 2560 2) ?sk2
      = (Inr (replicate 16 1 @ replicate 2560 2), ?sk2)"
    by (subst recv_more.simps) (simp add: sz r3)
  have m1: "recv_more (replicate 16 1) ?sk1 = (Inr (replicate 16 1 @ replicate 2560 2), ?sk2)"
    by (subst recv_more.simps) (simp add: sz r2 m2)
  show ?thesis
    by (simp add: recv_frame_in_def sz r1 m1)
qed

section \<open>Properties of the broadcast\<close>

text \<open>When no send fails the loop does what it is meant to: nothing is removed,
  connections whose descriptor is \<open>-1\<close> are passed over, and every other connection
  is sent the whole frame, in the order of the registry.\<close>

lemma dist_loop_all_working:
  "\<forall>c\<in>set reg. \<not> send_fails c \<Longrightarrow>
   dist_loop i reg sent
     = (None, reg, sent @ map (\<lambda>c. (c, Whole)) (filter send_succeeds (drop i reg)))"
proof (induction i reg sent rule: dist_loop.induct)
  case (1 i reg sent)
  show ?case
  proof (cases "i < length reg")
    case False
    then show ?thesis by (subst dist_loop.simps) simp
  next
    case True
    define c where "c = reg ! i"
    have d: "drop i reg = c # drop (Suc i) reg"
      using True by (simp add: c_def Cons_nth_drop_Suc)
    have nf: "\<not> send_fails c" using "1.prems" True by (simp add: c_def)
    show ?thesis
    proof (cases "fileno c \<noteq> - 1")
      case False
      have "dist_loop i reg sent = dist_loop (Suc i) reg sent"
        using True False by (subst dist_loop.simps) (simp add: c_def)
      then show ?thesis
        using "1.IH"(3) [OF True c_def _ "1.prems"] False by (simp add: d send_succeeds_def)
    next
      case valid: True
      then have ok: "sendall_raises c = None" using nf by (simp add: send_fails_def)
      have "dist_loop i reg sent = dist_loop (Suc i) reg (sent @ [(c, Whole)])"
        using True valid ok by (subst dist_loop.simps) (simp add: c_def)
      then show ?thesis
        using "1.IH"(1) [OF True c_def valid ok "1.prems"] valid ok
        by (simp add: d send_succeeds_def)
    qed
  qed
qed

lemma broadcast_all_working:
  "\<forall>c\<in>set reg. \<not> send_fails c \<Longrightarrow>
   broadcast reg = (None, reg, map (\<lambda>c. (c, Whole)) (filter send_succeeds reg))"
  using dist_loop_all_working [of reg 0 "[]"] by (simp add: broadcast_def)

text \<open>
  Claim C4 against the code, with three registered consumers, all on valid descriptors.
  When the send to the first one fails and \<^verbatim>\<open>getpeername\<close> works, that consumer is
  removed, but the second is not sent the frame: the removal shifts the list under the
  loop's index. When the second consumer's peer has closed its socket, so that
  \<^verbatim>\<open>getpeername\<close> raises in the handler as well, the exception leaves the loop: nobody is
  removed, the third consumer is not served, and the distributor's thread ends.
\<close>

theorem broadcast_one_failed_send:
  "broadcast [gone_consumer 1 True, live_consumer 2, live_consumer 3]
     = (None, [live_consumer 2, live_consumer 3],
        [(gone_consumer 1 True, Part 0), (live_consumer 3, Whole)])
   \<and> broadcast [live_consumer 1, gone_consumer 2 False, live_consumer 3]
     = (Some PeerNameFault, [live_consumer 1, gone_consumer 2 False, live_consumer 3],
        [(live_consumer 1, Whole), (gone_consumer 2 False, Part 0)])"
  by (simp add: broadcast_def dist_loop.simps gone_consumer_def live_consumer_def Let_def)

section \<open>Properties of the input server\<close>

lemma recv_closed_any:
  assumes "pending sk = []" and "Fault \<notin> set (events sk)"
  shows "\<exists>sk'. recv n sk = (Inr [], sk') \<and> pending sk' = [] \<and> Fault \<notin> set (events sk')"
proof (cases "events sk")
  case Nil
  then show ?thesis using assms by (simp add: recv_def)
next
  case (Cons ev es)
  then obtain k where "ev = Avail k" using assms(2) by (cases ev) auto
  then show ?thesis using assms Cons by (simp add: recv_def)
qed

lemma recv_frame_in_closed:
  assumes "pending sk = []" and "Fault \<notin> set (events sk)"
  shows "\<exists>sk'. recv_frame_in sk = (Inr [], sk')"
proof -
  obtain sk1 where r1: "recv size_recv sk = (Inr [], sk1)"
    and p1: "pending sk1 = []" "Fault \<notin> set (events sk1)"
    using recv_closed_any [OF assms] by blast
  obtain sk2 where r2: "recv size_recv sk1 = (Inr [], sk2)"
    using recv_closed_any [OF p1] by blast
  have "recv_more [] sk1 = (Inr [], sk2)"
    by (subst recv_more.simps) (simp add: r2)
  then show ?thesis
    using r1 by (simp add: recv_frame_in_def size_recv_def FRAME_SIZE_INPUT_def)
qed

lemma serve_conn_closed:
  assumes "pending sk = []" and "Fault \<notin> set (events sk)"
  shows "serve_conn m conv clock cur sk st = (None, st)"
proof -
  obtain sk' where "recv_frame_in sk = (Inr [], sk')"
    using recv_frame_in_closed [OF assms] by blast
  then show ?thesis by (subst serve_conn.simps) simp
qed

lemma call_process_vap_fields:
  assumes "call_process_vap m clock w st = (r, st')"
  shows "addr st' = addr st" and "accepted st' = accepted st" and "emitted st' = emitted st @ [w]"
    and "conn_open st' = conn_open st" and "bind_errors st' = bind_errors st"
  using assms by (auto simp: call_process_vap_def split: prod.splits)

lemma ingest_ready: "ingest cur x = (Some w, cur') \<Longrightarrow> \<not> not_ready w"
  by (auto simp: ingest_def Let_def split: if_splits)

lemma serve_conn_fields:
  "serve_conn m conv clock cur sk st = (r, st') \<Longrightarrow>
   addr st' = addr st \<and> accepted st' = accepted st
   \<and> conn_open st' = conn_open st \<and> bind_errors st' = bind_errors st
   \<and> (\<exists>ws. emitted st' = emitted st @ ws \<and> (\<forall>w\<in>set ws. \<not> not_ready w))"
proof (induction m conv clock cur sk st rule: serve_conn.induct)
  case (1 m conv clock cur sk st)
  obtain rd sk1 where rd: "recv_frame_in sk = (rd, sk1)" by (cases "recv_frame_in sk")
  show ?case
  proof (cases rd)
    case (Inl e)
    then have "st' = st" using "1.prems" rd by (subst (asm) serve_conn.simps) simp
    then show ?thesis by simp
  next
    case (Inr data)
    show ?thesis
    proof (cases "length data = 0")
      case True
      then have "st' = st" using "1.prems" rd Inr by (subst (asm) serve_conn.simps) simp
      then show ?thesis by simp
    next
      case ne: False
      show ?thesis
      proof (cases "conv data")
        case None
        then have "st' = st" using "1.prems" rd Inr ne by (subst (asm) serve_conn.simps) simp
        then show ?thesis by simp
      next
        case (Some x)
        obtain wo cur' where ing: "ingest cur x = (wo, cur')" by (cases "ingest cur x")
        show ?thesis
        proof (cases wo)
          case None
          have "serve_conn m conv clock cur' sk1 st = (r, st')"
            using "1.prems" rd Inr ne Some ing None by (subst (asm) serve_conn.simps) simp
          from "1.IH"(1) [OF rd [symmetric] Inr ne Some ing [symmetric] None this]
          show ?thesis .
        next
          case w: (Some w)
          obtain r1 st1 where cp: "call_process_vap m clock w st = (r1, st1)"
            by (cases "call_process_vap m clock w st")
          note f = call_process_vap_fields [OF cp]
          have rdy: "\<not> not_ready w" using ing w ingest_ready by blast
          show ?thesis
          proof (cases r1)
            case (Some e)
            then have "st' = st1"
              using "1.prems" rd Inr ne \<open>conv data = Some x\<close> ing w cp
              by (subst (asm) serve_conn.simps) simp
            then show ?thesis using f rdy by simp
          next
            case None
            have "serve_conn m conv clock cur' sk1 st1 = (r, st')"
              using "1.prems" rd Inr ne \<open>conv data = Some x\<close> ing w cp None
              by (subst (asm) serve_conn.simps) simp
            from "1.IH"(2) [OF rd [symmetric] Inr ne \<open>conv data = Some x\<close> ing [symmetric] w
                cp [symmetric] None this]
            obtain ws where "addr st' = addr st1" "accepted st' = accepted st1"
              "conn_open st' = conn_open st1" "bind_errors st' = bind_errors st1"
              "emitted st' = emitted st1 @ ws" "\<forall>w\<in>set ws. \<not> not_ready w"
              by blast
            then have "addr st' = addr st" "accepted st' = accepted st"
              "conn_open st' = conn_open st" "bind_errors st' = bind_errors st"
              "emitted st' = emitted st @ (w # ws)" "\<forall>w'\<in>set (w # ws). \<not> not_ready w'"
              using f rdy by simp_all
            then show ?thesis by blast
          qed
        qed
      qed
    qed
  qed
qed

lemma call_process_vap_total:
  assumes "\<forall>x1 x2. encode_audio m x1 x2 \<noteq> None" and "\<forall>c1 c2. bc_heads m c1 c2 \<noteq> None"
  shows "fst (call_process_vap m clock w st) = None"
proof -
  obtain e1 e2 where e: "encode_audio m (fst w) (snd w) = Some (e1, e2)"
    using assms(1) by (metis option.exhaust surj_pair)
  show ?thesis
    using e assms(2)
    by (auto simp: call_process_vap_def process_vap_def Let_def split: prod.splits option.splits)
qed

lemma serve_conn_aligned:
  assumes enc: "\<forall>x1 x2. encode_audio m x1 x2 \<noteq> None" and heads: "\<forall>c1 c2. bc_heads m c1 c2 \<noteq> None"
    and len: "\<forall>f\<in>set frames. length f = size_recv" and dec: "\<forall>f\<in>set frames. conv f \<noteq> None"
  shows "fst (serve_conn m conv clock cur (stream_of (concat frames)) st) = None
       \<and> emitted (snd (serve_conn m conv clock cur (stream_of (concat frames)) st))
           = emitted st @ fst (ingest_all cur (map (\<lambda>f. the (conv f)) frames))"
  using len dec
proof (induction frames arbitrary: cur st)
  case Nil
  have "serve_conn m conv clock cur (stream_of []) st = (None, st)"
    by (rule serve_conn_closed) (simp_all add: stream_of_def)
  then show ?case by simp
next
  case (Cons f frames)
  have lf: "length f = size_recv" and IHp: "\<forall>f\<in>set frames. length f = size_recv"
    "\<forall>f\<in>set frames. conv f \<noteq> None" using Cons.prems by simp_all
  obtain x where x: "conv f = Some x" using Cons.prems(2) by auto
  have ne: "length f \<noteq> 0" using lf by (simp add: size_recv_def FRAME_SIZE_INPUT_def)
  have rd: "recv_frame_in (stream_of (concat (f # frames))) = (Inr f, stream_of (concat frames))"
    using recv_frame_in_ready [of "concat (f # frames)"] lf by simp
  obtain wo cur' where ing: "ingest cur x = (wo, cur')" by (cases "ingest cur x")
  show ?case
  proof (cases wo)
    case None
    have "serve_conn m conv clock cur (stream_of (concat (f # frames))) st
        = serve_conn m conv clock cur' (stream_of (concat frames)) st"
      using rd ne x ing None by (subst serve_conn.simps) simp
    then show ?thesis using Cons.IH [OF IHp, of cur' st] x ing None by simp
  next
    case (Some w)
    obtain r1 st1 where cp: "call_process_vap m clock w st = (r1, st1)"
      by (cases "call_process_vap m clock w st")
    have r1: "r1 = None" using call_process_vap_total [OF enc heads, of clock w st] cp by simp
    have e1: "emitted st1 = emitted st @ [w]" using call_process_vap_fields(3) [OF cp] .
    have "serve_conn m conv clock cur (stream_of (concat (f # frames))) st
        = serve_conn m conv clock cur' (stream_of (concat frames)) st1"
      using rd ne x ing Some cp r1 by (subst serve_conn.simps) simp
    then show ?thesis using Cons.IH [OF IHp, of cur' st1] x ing Some e1
      by (simp split: prod.splits)
  qed
qed

lemma serve_conn_no_window:
  assumes len: "\<forall>f\<in>set frames. length f = size_recv" and dec: "\<forall>f\<in>set frames. conv f \<noteq> None"
    and nw: "fst (ingest_all cur (map (\<lambda>f. the (conv f)) frames)) = []"
  shows "serve_conn m conv clock cur (stream_of (concat frames)) st = (None, st)"
  using len dec nw
proof (induction frames arbitrary: cur)
  case Nil
  show ?case by (rule serve_conn_closed) (simp_all add: stream_of_def)
next
  case (Cons f frames)
  have lf: "length f = size_recv" and IHp: "\<forall>f\<in>set frames. length f = size_recv"
    "\<forall>f\<in>set frames. conv f \<noteq> None" using Cons.prems by simp_all
  obtain x where x: "conv f = Some x" using Cons.prems(2) by auto
  have ne: "length f \<noteq> 0" using lf by (simp add: size_recv_def FRAME_SIZE_INPUT_def)
  have rd: "recv_frame_in (stream_of (concat (f # frames))) = (Inr f, stream_of (concat frames))"
    using recv_frame_in_ready [of "concat (f # frames)"] lf by simp
  obtain wo cur' where ing: "ingest cur x = (wo, cur')" by (cases "ingest cur x")
  have wo: "wo = None"
  proof (cases wo)
    case (Some w)
    then have False using Cons.prems(3) x ing by (simp split: prod.splits)
    then show ?thesis ..
  qed simp
  have nw': "fst (ingest_all cur' (map (\<lambda>f. the (conv f)) frames)) = []"
    using Cons.prems(3) x ing wo by simp
  have "serve_conn m conv clock cur (stream_of (concat (f # frames))) st
      = serve_conn m conv clock cur' (stream_of (concat frames)) st"
    using rd ne x ing wo by (subst serve_conn.simps) simp
  then show ?case using Cons.IH [OF IHp nw'] by simp
qed

lemma length_deinterleave:
  "length (fst (deinterleave f64 n bs)) = n \<and> length (snd (deinterleave f64 n bs)) = n"
proof (induction n arbitrary: bs)
  case 0
  show ?case by simp
next
  case (Suc n)
  obtain x1 x2 where d: "deinterleave f64 n (drop 16 bs) = (x1, x2)"
    by (cases "deinterleave f64 n (drop 16 bs)")
  from Suc [of "drop 16 bs"] d show ?case by simp
qed

lemma conv_whole_frame:
  assumes "length bs = size_recv"
  shows "\<exists>x. conv_bytearray_2_2floatarray f64 bs = Some x \<and> fixed_chunk x"
proof -
  have "length bs mod 16 = 0" and d: "length bs div 16 = 160"
    using assms by (simp_all add: size_recv_def FRAME_SIZE_INPUT_def)
  then have "conv_bytearray_2_2floatarray f64 bs = Some (deinterleave f64 160 bs)"
    by (simp add: conv_bytearray_2_2floatarray_def)
  moreover have "fixed_chunk (deinterleave f64 160 bs)"
    using length_deinterleave [of f64 160 bs] by (simp add: fixed_chunk_def FRAME_SIZE_INPUT_def)
  ultimately show ?thesis by blast
qed

lemma serve_three_frames:
  "serve_conn m (conv_bytearray_2_2floatarray f64) clock init_buffers three_frames st = (None, st)"
proof -
  let ?frames = "replicate 3 (replicate 2560 (0 :: byte))"
  let ?conv = "conv_bytearray_2_2floatarray f64"
  have len: "\<forall>f\<in>set ?frames. length f = size_recv"
    by (simp add: size_recv_def FRAME_SIZE_INPUT_def)
  have dec: "\<forall>f\<in>set ?frames. ?conv f \<noteq> None"
    using conv_whole_frame len by (metis option.distinct(1))
  have fixed: "\<forall>x\<in>set (map (\<lambda>f. the (?conv f)) ?frames). fixed_chunk x"
  proof
    fix x assume "x \<in> set (map (\<lambda>f. the (?conv f)) ?frames)"
    then obtain f where f: "f \<in> set ?frames" and x: "x = the (?conv f)" by auto
    from conv_whole_frame [of f f64] len f obtain y where "?conv f = Some y" "fixed_chunk y"
      by blast
    then show "fixed_chunk x" using x by simp
  qed
  have nw: "fst (ingest_all init_buffers (map (\<lambda>f. the (?conv f)) ?frames)) = []"
    unfolding ingest_all_init [OF fixed] by simp
  show ?thesis
    unfolding three_frames_def by (rule serve_conn_no_window [OF len dec nw])
qed

lemma proc_serv_in_port_in_use:
  "conn_open st \<Longrightarrow> addr st \<noteq> None \<Longrightarrow>
   proc_serv_in n m conv clock ps st = (Passes_used, st\<lparr> bind_errors := bind_errors st + n \<rparr>)"
proof (induction n arbitrary: st)
  case 0
  then show ?case by simp
next
  case (Suc n)
  let ?st = "st\<lparr> bind_errors := Suc (bind_errors st) \<rparr>"
  have "conn_open ?st" "addr ?st \<noteq> None" using Suc.prems by simp_all
  from Suc.IH [OF this] show ?case using Suc.prems by (auto simp: handler_def)
qed

lemma proc_serv_in_never_exits:
  "(conn_open st \<longrightarrow> addr st \<noteq> None) \<Longrightarrow> fst (proc_serv_in n m conv clock ps st) \<noteq> Exited e"
proof (induction n arbitrary: st ps)
  case 0
  then show ?case by simp
next
  case (Suc n)
  show ?case
  proof (cases "conn_open st")
    case True
    then show ?thesis using Suc.prems proc_serv_in_port_in_use [of st "Suc n" m conv clock ps]
      by simp
  next
    case False
    show ?thesis
    proof (cases ps)
      case Nil
      then show ?thesis using False by simp
    next
      case (Cons p ps')
      obtain a sk where p: "p = (a, sk)" by (cases p)
      define st1 where "st1 = st\<lparr> addr := Some a, conn_open := True, accepted := accepted st @ [a] \<rparr>"
      obtain r st' where sc: "serve_conn m conv clock init_buffers sk st1 = (r, st')"
        by (cases "serve_conn m conv clock init_buffers sk st1")
      from serve_conn_fields [OF sc] have f: "addr st' = Some a" "conn_open st'"
        by (simp_all add: st1_def)
      have "proc_serv_in (Suc n) m conv clock ps st = proc_serv_in n m conv clock ps' st'"
        using False Cons p sc f by (cases r) (simp_all add: st1_def [symmetric] handler_def)
      moreover have "fst (proc_serv_in n m conv clock ps' st') \<noteq> Exited e"
        by (rule Suc.IH) (simp add: f)
      ultimately show ?thesis by simp
    qed
  qed
qed

text \<open>
  Claim C7 against the code. A producer connects, sends three whole frames and closes its
  socket in mid-stream; a second producer is waiting to connect. The session ends by the
  \<^verbatim>\<open>break\<close> of line 385 with nothing emitted from the part-filled buffers, and the server
  never leaves its loop: so far the claim holds. But the server does not get back to
  \<^verbatim>\<open>accept\<close>: every later pass, however many, ends in \<^verbatim>\<open>bind\<close> raising on the port
  that the unclosed socket still holds, and the second producer is never accepted.
\<close>

theorem input_server_never_rebinds:
  "proc_serv_in (Suc (Suc n)) m (conv_bytearray_2_2floatarray f64) clock
       [(1, three_frames), (2, sk)] init_server
     = (Passes_used,
        init_server\<lparr> addr := Some 1, conn_open := True, accepted := [1],
                     bind_errors := Suc n \<rparr>)"
proof -
  let ?st1 = "(init_server :: 'a server)\<lparr> addr := Some 1, conn_open := True,
                             accepted := accepted (init_server :: 'a server) @ [1] \<rparr>"
  have s: "serve_conn m (conv_bytearray_2_2floatarray f64) clock init_buffers three_frames ?st1
      = (None, ?st1)"
    by (rule serve_three_frames)
  have "proc_serv_in (Suc (Suc n)) m (conv_bytearray_2_2floatarray f64) clock
       [(1, three_frames), (2, sk)] init_server
     = proc_serv_in (Suc n) m (conv_bytearray_2_2floatarray f64) clock [(2, sk)] ?st1"
    using s by (simp add: init_server_def)
  also have "\<dots> = (Passes_used, ?st1\<lparr> bind_errors := bind_errors ?st1 + Suc n \<rparr>)"
    by (rule proc_serv_in_port_in_use) simp_all
  finally show ?thesis by (simp add: init_server_def)
qed

section \<open>Properties of the two threads\<close>

lemma call_ops_refines:
  "run_ops (call_ops m c s) s = snd (process_vap m (call_x1 c) (call_x2 c) (call_clk c) s)"
  by (simp add: run_ops_def call_ops_def process_vap_def Let_def save_current_audio_def
      append_context_def store_result_def stamp_result_def stamp_abs_def record_time_def
      split: option.splits prod.splits)

lemma stamps_append: "stamps (xs @ ys) = stamps xs @ stamps ys"
  by (simp add: stamps_def)

lemma stamps_call_ops:
  "stamps (call_ops m c s) = [] \<or> stamps (call_ops m c s) = [t_result (call_clk c)]"
  by (simp add: stamps_def call_ops_def split: option.splits prod.splits)

lemma ordered_all_ops: "ordered b (all_ops m cs s)"
proof (induction cs arbitrary: b s)
  case Nil
  then show ?case by simp
next
  case (Cons c cs)
  show ?case
    by (auto simp: call_ops_def Cons.IH split: option.splits prod.splits)
qed

lemma stamps_all_ops_subset: "set (stamps (all_ops m cs s)) \<subseteq> set (result_times cs)"
proof (induction cs arbitrary: s)
  case Nil
  then show ?case by (simp add: stamps_def)
next
  case (Cons c cs)
  have "set (stamps (call_ops m c s)) \<subseteq> {t_result (call_clk c)}"
    using stamps_call_ops [of m c s] by auto
  then show ?case using Cons.IH by (auto simp: stamps_append result_times_def)
qed

lemma published_inv_init:
  "set (result_times cs) \<subseteq> T \<Longrightarrow> published_inv T (init_system m cs)"
  using stamps_all_ops_subset [of m cs init_vap]
  by (auto simp: published_inv_def init_system_def init_vap_def init_dist_def ordered_all_ops
      after_check_def after_copy_t_def)

lemma stamp_fields:
  "result_last_time (append_context e1 e2 s) = result_last_time s"
  "process_time_abs (append_context e1 e2 s) = process_time_abs s"
  "result_last_time (record_time d s) = result_last_time s"
  "process_time_abs (record_time d s) = process_time_abs s"
  "result_last_time (stamp_result t s) = t"
  "process_time_abs (stamp_result t s) = process_time_abs s"
  "result_last_time (stamp_abs t s) = result_last_time s"
  "process_time_abs (stamp_abs t s) = t"
  by (simp_all add: append_context_def stamp_result_def stamp_abs_def record_time_def Let_def)

lemma published_inv_vap_tick:
  assumes "published_inv T sys"
  shows "published_inv T (vap_tick sys)"
proof (cases "rest_ops sys")
  case Nil
  then show ?thesis using assms by (simp add: vap_tick_def)
next
  case (Cons op ops)
  show ?thesis
    using assms Cons
    unfolding published_inv_def
    by (cases op; simp add: vap_tick_def stamp_fields stamps_def; auto)
qed

lemma published_inv_dist_tick:
  assumes "published_inv T sys"
  shows "published_inv T (dist_tick sys)"
  using assms unfolding published_inv_def
  by (cases "pc (dist sys)";
      simp add: dist_tick_def dist_step_def frame_of_def after_check_def after_copy_t_def;
      auto)

lemma published_inv_run:
  "published_inv T sys \<Longrightarrow> published_inv T (run sch sys)"
proof (induction sch arbitrary: sys)
  case Nil
  then show ?case by simp
next
  case (Cons t ts)
  then show ?case
    by (cases t) (simp_all add: published_inv_vap_tick published_inv_dist_tick)
qed


lemma alternating_all_ops: "alternating False (all_ops m cs s)"
proof (induction cs arbitrary: s)
  case Nil
  then show ?case by simp
next
  case (Cons c cs)
  show ?case
    by (auto simp: call_ops_def Cons.IH split: option.splits prod.splits)
qed

lemma carried_inv_init:
  "carried_inv (stamps (all_ops m cs init_vap)) (init_system m cs)"
  by (simp add: carried_inv_def init_system_def init_dist_def alternating_all_ops
      after_copy_t_def)

lemma set_take_Suc_subset: "set (take n xs) \<subseteq> set (take (Suc n) xs)"
  by (rule set_take_subset_set_take) simp

lemma carried_inv_vap_tick:
  assumes "carried_inv S sys"
  shows "carried_inv S (vap_tick sys)"
proof (cases "rest_ops sys")
  case Nil
  then show ?thesis using assms by (simp add: vap_tick_def)
next
  case (Cons op ops)
  define np where "np = n_published sys"
  define nc where "nc = n_completed sys"
  have st: "stamps (rest_ops sys) = drop np S"
    and al: "alternating (np = Suc nc) (rest_ops sys)"
    and cnt: "np = nc \<or> np = Suc nc"
    and rl: "0 < np \<longrightarrow> result_last_time (shared sys) \<in> set (take np S)"
    and lt: "after_copy_t (pc (dist sys)) \<longrightarrow> loc_t (dist sys) \<in> set (take np S)"
    and se: "\<forall>fn\<in>set (sends sys). res_t (fst fn) \<in> set (take (Suc (snd fn)) S)"
    using assms by (simp_all add: carried_inv_def np_def nc_def)
  show ?thesis
  proof (cases "is_stamp_result op")
    case True
    then obtain t where op: "op = Stamp_result t" by (cases op) simp_all
    have d: "drop np S = t # stamps ops" using st Cons op by (simp add: stamps_def)
    then have lnp: "np < length S" by (metis drop_eq_Nil leI list.distinct(1))
    have t: "S ! np = t" and d': "drop (Suc np) S = stamps ops"
      using d lnp by (metis Cons_nth_drop_Suc list.inject)+
    have tk: "take (Suc np) S = take np S @ [t]"
      using lnp t by (simp add: take_Suc_conv_app_nth)
    have a: "np = nc" and a': "alternating True ops"
      using al Cons op cnt by auto
    have v: "vap_tick sys = sys\<lparr> shared := stamp_result t (shared sys), rest_ops := ops,
               n_published := Suc np, n_completed := nc \<rparr>"
      using Cons op by (simp add: vap_tick_def np_def nc_def)
    have in1: "t \<in> set (take (Suc np) S)" using tk by simp
    have lt': "after_copy_t (pc (dist sys)) \<longrightarrow> loc_t (dist sys) \<in> set (take (Suc np) S)"
      using lt set_take_Suc_subset [of np S] by blast
    show ?thesis
      unfolding v carried_inv_def
      using d' a a' in1 lt' se by (simp add: stamp_fields)
  next
    case nr: False
    then have so: "stamp_of op = []" by (cases op) simp_all
    have st': "stamps ops = drop np S" using st Cons so by (simp add: stamps_def)
    have rlt: "result_last_time (apply_op op (shared sys)) = result_last_time (shared sys)"
      using nr by (cases op) (simp_all add: stamp_fields)
    show ?thesis
    proof (cases "is_stamp_abs op")
      case True
      have b: "np = Suc nc" and a': "alternating False ops"
        using al Cons nr True by auto
      have v: "vap_tick sys = sys\<lparr> shared := apply_op op (shared sys), rest_ops := ops,
               n_published := np, n_completed := Suc nc \<rparr>"
        using Cons nr True by (simp add: vap_tick_def np_def nc_def)
      show ?thesis
        unfolding v carried_inv_def
        using st' b a' rl lt se by (simp add: rlt)
    next
      case False
      have a': "alternating (np = Suc nc) ops" using al Cons nr False by simp
      have v: "vap_tick sys = sys\<lparr> shared := apply_op op (shared sys), rest_ops := ops,
               n_published := np, n_completed := nc \<rparr>"
        using Cons nr False by (simp add: vap_tick_def np_def nc_def)
      show ?thesis
        unfolding v carried_inv_def
        using st' a' cnt rl lt se by (simp add: rlt)
    qed
  qed
qed

lemma carried_inv_dist_tick:
  assumes pi: "published_inv T sys" and ci: "carried_inv S sys"
  shows "carried_inv S (dist_tick sys)"
proof -
  define d where "d = dist sys"
  define np where "np = n_published sys"
  define nc where "nc = n_completed sys"
  have dt: "dist_tick sys = sys\<lparr> dist := dist_step (shared sys) d,
          sends := (if pc d = D_send then sends sys @ [(frame_of d, nc)] else sends sys) \<rparr>"
    by (simp add: dist_tick_def d_def nc_def)
  have st: "stamps (rest_ops sys) = drop np S"
    and al: "alternating (np = Suc nc) (rest_ops sys)"
    and cnt: "np = nc \<or> np = Suc nc"
    and rl: "0 < np \<longrightarrow> result_last_time (shared sys) \<in> set (take np S)"
    and lt: "after_copy_t (pc d) \<longrightarrow> loc_t d \<in> set (take np S)"
    and se: "\<forall>fn\<in>set (sends sys). res_t (fst fn) \<in> set (take (Suc (snd fn)) S)"
    using ci by (simp_all add: carried_inv_def np_def nc_def d_def)
  have pub: "after_check (pc d) \<longrightarrow> 0 < np"
    using pi by (simp add: published_inv_def d_def np_def)
  have base: "stamps (rest_ops (dist_tick sys)) = drop (n_published (dist_tick sys)) S"
    "alternating (n_published (dist_tick sys) = Suc (n_completed (dist_tick sys)))
       (rest_ops (dist_tick sys))"
    "n_published (dist_tick sys) = n_completed (dist_tick sys)
       \<or> n_published (dist_tick sys) = Suc (n_completed (dist_tick sys))"
    "0 < n_published (dist_tick sys) \<longrightarrow>
       result_last_time (shared (dist_tick sys)) \<in> set (take (n_published (dist_tick sys)) S)"
    using st al cnt rl by (simp_all add: dt np_def nc_def)
  have loc: "after_copy_t (pc (dist (dist_tick sys))) \<longrightarrow>
       loc_t (dist (dist_tick sys)) \<in> set (take (n_published (dist_tick sys)) S)"
  proof (cases "pc d = D_copy_t")
    case True
    then have "0 < np" using pub by (simp add: after_check_def)
    then have "result_last_time (shared sys) \<in> set (take np S)" using rl by blast
    then show ?thesis using True by (simp add: dt dist_step_def np_def)
  next
    case False
    then show ?thesis
      using lt
      by (cases "pc d") (simp_all add: dt dist_step_def after_copy_t_def np_def)
  qed
  have snd: "\<forall>fn\<in>set (sends (dist_tick sys)). res_t (fst fn) \<in> set (take (Suc (snd fn)) S)"
  proof (cases "pc d = D_send")
    case True
    then have "loc_t d \<in> set (take np S)" using lt by (simp add: after_copy_t_def)
    moreover have "set (take np S) \<subseteq> set (take (Suc nc) S)"
      using cnt set_take_Suc_subset [of nc S] by auto
    ultimately have "res_t (frame_of d) \<in> set (take (Suc nc) S)"
      by (auto simp: frame_of_def)
    then show ?thesis using se True by (simp add: dt)
  next
    case False
    then show ?thesis using se by (simp add: dt)
  qed
  show ?thesis unfolding carried_inv_def using base loc snd by blast
qed

lemma carried_inv_run:
  "published_inv T sys \<Longrightarrow> carried_inv S sys \<Longrightarrow> carried_inv S (run sch sys)"
proof (induction sch arbitrary: sys)
  case Nil
  then show ?case by simp
next
  case (Cons t ts)
  then show ?case
    by (cases t)
      (simp_all add: published_inv_vap_tick published_inv_dist_tick
        carried_inv_vap_tick carried_inv_dist_tick)
qed

text \<open>
  Claim C10, amended. In every run of the two threads from their start, under every
  schedule: when a frame is sent, at least one call of the inference step has reached its
  last line; the timestamp the frame carries is one that line 312 has written, for a call
  that has reached line 324 by then or for the one call after those, whose result is
  stored but which may still stand before line 324; and it is not the sentinel \<open>-1\<close>
  of the constructor, as long as the clock never reads \<open>-1\<close>.
\<close>

theorem no_send_before_first_result:
  "\<forall>fn\<in>set (sends (run sch (init_system m cs))).
      1 \<le> snd fn
      \<and> res_t (fst fn) \<in> set (take (Suc (snd fn)) (stamps (all_ops m cs init_vap)))
      \<and> ((\<forall>c\<in>set cs. t_result (call_clk c) \<noteq> - 1) \<longrightarrow> res_t (fst fn) \<noteq> - 1)"
proof
  fix fn assume fn: "fn \<in> set (sends (run sch (init_system m cs)))"
  have pi: "published_inv (set (result_times cs)) (init_system m cs)"
    by (simp add: published_inv_init)
  have "published_inv (set (result_times cs)) (run sch (init_system m cs))"
    by (rule published_inv_run [OF pi])
  then have a: "1 \<le> snd fn" and b: "res_t (fst fn) \<in> set (result_times cs)"
    using fn by (auto simp: published_inv_def)
  have "carried_inv (stamps (all_ops m cs init_vap)) (run sch (init_system m cs))"
    by (rule carried_inv_run [OF pi carried_inv_init])
  then have c: "res_t (fst fn) \<in> set (take (Suc (snd fn)) (stamps (all_ops m cs init_vap)))"
    using fn by (simp add: carried_inv_def)
  have "(\<forall>c\<in>set cs. t_result (call_clk c) \<noteq> - 1) \<longrightarrow> res_t (fst fn) \<noteq> - 1"
    using b by (auto simp: result_times_def)
  with a c show "1 \<le> snd fn
      \<and> res_t (fst fn) \<in> set (take (Suc (snd fn)) (stamps (all_ops m cs init_vap)))
      \<and> ((\<forall>c\<in>set cs. t_result (call_clk c) \<noteq> - 1) \<longrightarrow> res_t (fst fn) \<noteq> - 1)"
    by blast
qed

text \<open>The definitions that a concrete run unfolds.\<close>

lemmas run_simps = init_system_def init_vap_def init_dist_def call_ops_def
  const_model_def call_with_def vap_tick_def dist_tick_def dist_step_def frame_of_def
  stamp_fields append_context_def stamp_result_def stamp_abs_def record_time_def Let_def
  limit_context_def AUDIO_CONTEXT_LIM_def CALC_PROCESS_TIME_INTERVAL_def py_from_def
  process_vap_def save_current_audio_def store_result_def sent_times_def

lemma first_run:
  "sends (run first_schedule (init_system const_model [call_with 5 6]))
     = [(\<lparr> res_t = 5, res_x1 = [], res_x2 = [], res_p_bc_react = 1 / 2, res_p_bc_emo = 1 / 4 \<rparr>, 1)]"
  by (simp add: first_schedule_def init_system_def init_vap_def init_dist_def call_ops_def
      const_model_def call_with_def vap_tick_def dist_tick_def dist_step_def frame_of_def
      stamp_fields append_context_def stamp_result_def stamp_abs_def record_time_def Let_def
      limit_context_def AUDIO_CONTEXT_LIM_def CALC_PROCESS_TIME_INTERVAL_def py_from_def)


theorem no_send_before_first_result_witness:
  "(\<lparr> res_t = 5, res_x1 = [], res_x2 = [], res_p_bc_react = 1 / 2, res_p_bc_emo = 1 / 4 \<rparr>, 1)
     \<in> set (sends (run first_schedule (init_system const_model [call_with 5 6])))
   \<and> t_result (call_clk (call_with 5 6)) \<noteq> - 1
   \<and> stamps (all_ops const_model [call_with 5 6] init_vap) = [5]
   \<and> res_t \<lparr> res_t = 5, res_x1 = [], res_x2 = [], res_p_bc_react = 1 / 2, res_p_bc_emo = 1 / 4 \<rparr>
       \<in> set (take 2 (stamps (all_ops const_model [call_with 5 6] init_vap)))
   \<and> res_t \<lparr> res_t = 5, res_x1 = [], res_x2 = [], res_p_bc_react = 1 / 2, res_p_bc_emo = 1 / 4 \<rparr>
       \<noteq> - 1"
proof -
  let ?f = "\<lparr> res_t = 5, res_x1 = [], res_x2 = [], res_p_bc_react = 1 / 2, res_p_bc_emo = 1 / 4 \<rparr>"
  have m: "(?f, 1) \<in> set (sends (run first_schedule (init_system const_model [call_with 5 6])))"
    by (simp add: first_run)
  have h: "\<forall>c\<in>set [call_with 5 6]. t_result (call_clk c) \<noteq> - 1"
    by (simp add: call_with_def)
  have s: "stamps (all_ops const_model [call_with 5 6] init_vap) = [5]"
    by (simp add: stamps_def call_ops_def const_model_def call_with_def)
  from no_send_before_first_result [of first_schedule const_model "[call_with 5 6]"] m
  have "res_t (fst (?f, 1::nat))
        \<in> set (take (Suc (snd (?f, 1::nat))) (stamps (all_ops const_model [call_with 5 6] init_vap)))
      \<and> ((\<forall>c\<in>set [call_with 5 6]. t_result (call_clk c) \<noteq> - 1) \<longrightarrow> res_t (fst (?f, 1::nat)) \<noteq> - 1)"
    by blast
  with h have "res_t ?f \<in> set (take 2 (stamps (all_ops const_model [call_with 5 6] init_vap)))"
    and "res_t ?f \<noteq> - 1"
    by (simp_all add: numeral_2_eq_2)
  moreover have "t_result (call_clk (call_with 5 6)) \<noteq> - 1" by (simp add: call_with_def)
  ultimately show ?thesis using m s by blast
qed

text \<open>
  Claim C10, as stated, fails in its middle part. In the run in which the distributor has
  passed the test of line 414 after the first step and copies the timestamp once the
  second step has run line 312, the first frame is sent when one step has completed, whose
  timestamp is 1, and carries 11, the timestamp of the second step, which has not
  completed.
\<close>

theorem carried_time_counterexample:
  "(\<lparr> res_t = 11, res_x1 = [], res_x2 = [], res_p_bc_react = 1 / 2, res_p_bc_emo = 1 / 4 \<rparr>, 1)
     \<in> set (sends (run race_schedule (init_system const_model [call_with 1 3, call_with 11 13])))
   \<and> take 1 (stamps (all_ops const_model [call_with 1 3, call_with 11 13] init_vap)) = [1]
   \<and> res_t \<lparr> res_t = 11, res_x1 = [], res_x2 = [], res_p_bc_react = 1 / 2, res_p_bc_emo = 1 / 4 \<rparr>
       \<notin> set (take 1 (stamps (all_ops const_model [call_with 1 3, call_with 11 13] init_vap)))"
proof -
  have a: "sends (run race_schedule (init_system const_model [call_with 1 3, call_with 11 13]))
      = [(\<lparr> res_t = 11, res_x1 = [], res_x2 = [], res_p_bc_react = 1 / 2, res_p_bc_emo = 1 / 4 \<rparr>, 1),
         (\<lparr> res_t = 11, res_x1 = [], res_x2 = [], res_p_bc_react = 1 / 2, res_p_bc_emo = 1 / 4 \<rparr>, 2)]"
    by (simp add: race_schedule_def run_simps)
  have b: "stamps (all_ops const_model [call_with 1 3, call_with 11 13] init_vap) = [1, 11]"
    by (simp add: stamps_def run_simps)
  show ?thesis unfolding a b by simp
qed












end
